theory Spec2Isabelle
  imports Main
begin

section \<open>Data model of \<^verbatim>\<open>chess_pygame.py\<close>\<close>

text \<open>
  The source encodes colours and piece kinds as one-letter strings
  (\<^verbatim>\<open>WHITE = 'w'\<close>, \<^verbatim>\<open>BLACK = 'b'\<close>, kinds \<^verbatim>\<open>'K','Q','R','B','N','P'\<close>);
  they are closed enumerations here. A \<^verbatim>\<open>Piece\<close> object is a pair of both.
\<close>

datatype color = White | Black

datatype kind = King | Queen | Rook | Bishop | Knight | Pawn

datatype piece = Piece (color: color) (kind: kind)

text \<open>The exceptions the rules engine can raise.\<close>

datatype error = IndexError | AttributeError

type_synonym grid = "piece option list list"

type_synonym move = "(int \<times> int) \<times> (int \<times> int)"

record Board =
  board :: grid
  to_move :: color
  halfmove_clock :: int
  fullmove_number :: int

text \<open>
  \<^verbatim>\<open>__init__\<close> and \<^verbatim>\<open>clone\<close> only ever build grids of eight rows of eight cells.
\<close>

definition wf_grid :: "grid \<Rightarrow> bool" where
  "wf_grid g = (length g = 8 \<and> list_all (\<lambda>row. length row = 8) g)"

subsection \<open>Python list indexing\<close>

text \<open>
  \<^verbatim>\<open>xs[i]\<close>: an index from \<open>-len\<close> up to \<open>-1\<close> counts from the end, anything outside
  \<open>-len .. len-1\<close> raises \<^verbatim>\<open>IndexError\<close>.
\<close>

definition py_norm :: "nat \<Rightarrow> int \<Rightarrow> error + nat" where
  "py_norm n i =
     (if 0 \<le> i \<and> i < int n then Inr (nat i)
      else if - int n \<le> i \<and> i < 0 then Inr (nat (i + int n))
      else Inl IndexError)"

definition py_get :: "'a list \<Rightarrow> int \<Rightarrow> error + 'a" where
  "py_get xs i = (case py_norm (length xs) i of Inl e \<Rightarrow> Inl e | Inr j \<Rightarrow> Inr (xs ! j))"

definition py_set :: "'a list \<Rightarrow> int \<Rightarrow> 'a \<Rightarrow> error + 'a list" where
  "py_set xs i v = (case py_norm (length xs) i of Inl e \<Rightarrow> Inl e | Inr j \<Rightarrow> Inr (xs[j := v]))"

text \<open>\<^verbatim>\<open>self.board[r][c]\<close> as an expression, and as an assignment target.\<close>

definition cell :: "grid \<Rightarrow> int \<Rightarrow> int \<Rightarrow> error + piece option" where
  "cell g r c = (case py_get g r of Inl e \<Rightarrow> Inl e | Inr row \<Rightarrow> py_get row c)"

definition set_cell :: "grid \<Rightarrow> int \<Rightarrow> int \<Rightarrow> piece option \<Rightarrow> error + grid" where
  "set_cell g r c v =
     (case py_get g r of
        Inl e \<Rightarrow> Inl e
      | Inr row \<Rightarrow>
          (case py_set row c v of
             Inl e \<Rightarrow> Inl e
           | Inr row' \<Rightarrow> py_set g r row'))"

definition inside :: "int \<Rightarrow> int \<Rightarrow> bool" where
  "inside r c = (0 \<le> r \<and> r < 8 \<and> 0 \<le> c \<and> c < 8)"

text \<open>
  The read \<^verbatim>\<open>self.board[rr][cc]\<close> at a place the source reaches only after
  \<^verbatim>\<open>self.inside(rr, cc)\<close> held (or with loop variables from \<^verbatim>\<open>range(8)\<close>): both indices
  are in \<open>0..7\<close>, so no wrap-around and no exception can occur on an 8 by 8 grid
  (lemma \<open>cell_inside\<close> below).
\<close>

definition sq :: "grid \<Rightarrow> int \<Rightarrow> int \<Rightarrow> piece option" where
  "sq g r c = g ! nat r ! nat c"

text \<open>The test \<^verbatim>\<open>p and p.color == col and p.kind == k\<close>.\<close>

definition is_piece :: "piece option \<Rightarrow> color \<Rightarrow> kind \<Rightarrow> bool" where
  "is_piece po col k = (case po of None \<Rightarrow> False | Some p \<Rightarrow> color p = col \<and> kind p = k)"

text \<open>The test \<^verbatim>\<open>target and target.color != color\<close>.\<close>

definition is_enemy :: "piece option \<Rightarrow> color \<Rightarrow> bool" where
  "is_enemy po col = (case po of None \<Rightarrow> False | Some t \<Rightarrow> color t \<noteq> col)"

text \<open>The test \<^verbatim>\<open>target is None or target.color != color\<close>.\<close>

definition free_or_enemy :: "piece option \<Rightarrow> color \<Rightarrow> bool" where
  "free_or_enemy po col = (case po of None \<Rightarrow> True | Some t \<Rightarrow> color t \<noteq> col)"

definition range8 :: "int list" where
  "range8 = [0, 1, 2, 3, 4, 5, 6, 7]"

text \<open>The squares in the order of \<^verbatim>\<open>for r in range(8): for c in range(8)\<close>.\<close>

definition all_squares :: "(int \<times> int) list" where
  "all_squares = concat (map (\<lambda>r. map (\<lambda>c. (r, c)) range8) range8)"

subsection \<open>Construction\<close>

definition empty_grid :: grid where
  "empty_grid = replicate 8 (replicate 8 None)"

definition back_rank_order :: "kind list" where
  "back_rank_order = [Rook, Knight, Bishop, Queen, King, Bishop, Knight, Rook]"

text \<open>
  \<^verbatim>\<open>place_starting_position\<close>: constant in-range indices, so the assignments are list
  updates.
\<close>

definition put :: "grid \<Rightarrow> nat \<Rightarrow> nat \<Rightarrow> piece \<Rightarrow> grid" where
  "put g r c p = g[r := (g ! r)[c := Some p]]"

definition place_pawns :: "grid \<Rightarrow> grid" where
  "place_pawns g = fold (\<lambda>c g. put (put g 6 c (Piece White Pawn)) 1 c (Piece Black Pawn)) [0..<8] g"

definition place_officers :: "grid \<Rightarrow> grid" where
  "place_officers g =
     fold (\<lambda>(c, k) g. put (put g 7 c (Piece White k)) 0 c (Piece Black k))
       (zip [0..<8] back_rank_order) g"

definition place_starting_position :: "grid \<Rightarrow> grid" where
  "place_starting_position g = place_officers (place_pawns g)"

definition new_board :: Board where
  "new_board = \<lparr>board = place_starting_position empty_grid, to_move = White,
                 halfmove_clock = 0, fullmove_number = 1\<rparr>"

text \<open>\<^verbatim>\<open>clone\<close>, on values: every piece is rebuilt from its colour and kind.\<close>

definition clone :: "Board \<Rightarrow> Board" where
  "clone b =
     \<lparr>board = map (map (\<lambda>p. case p of None \<Rightarrow> None | Some q \<Rightarrow> Some (Piece (color q) (kind q))))
                (board b),
      to_move = to_move b,
      halfmove_clock = halfmove_clock b,
      fullmove_number = fullmove_number b\<rparr>"

subsection \<open>King lookup and attack detection\<close>

definition king_position :: "Board \<Rightarrow> color \<Rightarrow> int \<times> int" where
  "king_position b col =
     (case find (\<lambda>(r, c). is_piece (sq (board b) r c) col King) all_squares of
        Some rc \<Rightarrow> rc
      | None \<Rightarrow> (-1, -1))"

definition knight_offsets :: "(int \<times> int) list" where
  "knight_offsets = [(2,1),(2,-1),(-2,1),(-2,-1),(1,2),(1,-2),(-1,2),(-1,-2)]"

text \<open>
  The \<^verbatim>\<open>for dr in (-1,0,1): for dc in (-1,0,1)\<close> loop with its
  \<^verbatim>\<open>continue\<close> at \<open>(0,0)\<close>.
\<close>

definition king_offsets :: "(int \<times> int) list" where
  "king_offsets =
     filter (\<lambda>(dr, dc). \<not> (dr = 0 \<and> dc = 0))
       (concat (map (\<lambda>dr. map (\<lambda>dc. (dr, dc)) [-1, 0, 1]) [-1, 0, 1]))"

definition diagonals :: "(int \<times> int) list" where
  "diagonals = [(1,1),(1,-1),(-1,1),(-1,-1)]"

definition straights :: "(int \<times> int) list" where
  "straights = [(1,0),(-1,0),(0,1),(0,-1)]"

definition knight_attack :: "Board \<Rightarrow> int \<Rightarrow> int \<Rightarrow> color \<Rightarrow> bool" where
  "knight_attack b r c attacker_color =
     list_ex (\<lambda>(dr, dc). inside (r + dr) (c + dc)
                \<and> is_piece (sq (board b) (r + dr) (c + dc)) attacker_color Knight)
       knight_offsets"

text \<open>The pawn clause, lines 108 to 115.\<close>

definition pawn_attack :: "Board \<Rightarrow> int \<Rightarrow> int \<Rightarrow> color \<Rightarrow> bool" where
  "pawn_attack b r c attacker_color =
     (let dir = (if attacker_color = White then -1 else 1) in
        list_ex (\<lambda>dc. inside (r + dir) (c + dc)
                   \<and> is_piece (sq (board b) (r + dir) (c + dc)) attacker_color Pawn)
          [-1, 1])"

definition king_attack :: "Board \<Rightarrow> int \<Rightarrow> int \<Rightarrow> color \<Rightarrow> bool" where
  "king_attack b r c attacker_color =
     list_ex (\<lambda>(dr, dc). inside (r + dr) (c + dc)
                \<and> is_piece (sq (board b) (r + dr) (c + dc)) attacker_color King)
       king_offsets"

text \<open>
  The measure of a ray walk: the number of steps left before the walk leaves the board
  in the direction it moves.
\<close>

definition ray_left :: "int \<Rightarrow> int \<Rightarrow> int \<Rightarrow> int \<Rightarrow> nat" where
  "ray_left rr cc dr dc =
     (if 0 < dr then nat (8 - rr) else if dr < 0 then nat (rr + 1)
      else if 0 < dc then nat (8 - cc) else nat (cc + 1))"

text \<open>
  The \<^verbatim>\<open>while self.inside(rr, cc)\<close> walk along one ray; \<open>ks\<close> are the kinds that attack
  along it. The source runs it for the eight non-zero direction constants only; with
  \<open>(dr, dc) = (0, 0)\<close> the Python loop would not advance, which the guard on the
  direction excludes.
\<close>

function ray_attack :: "grid \<Rightarrow> color \<Rightarrow> kind list \<Rightarrow> int \<Rightarrow> int \<Rightarrow> int \<Rightarrow> int \<Rightarrow> bool" where
  "ray_attack g attacker_color ks rr cc dr dc =
     (if inside rr cc \<and> (dr \<noteq> 0 \<or> dc \<noteq> 0) then
        (case sq g rr cc of
           Some p \<Rightarrow> color p = attacker_color \<and> kind p \<in> set ks
         | None \<Rightarrow> ray_attack g attacker_color ks (rr + dr) (cc + dc) dr dc)
      else False)"
  by pat_completeness auto
termination
  by (relation "measure (\<lambda>(g, a, ks, rr, cc, dr, dc). ray_left rr cc dr dc)")
     (auto simp: inside_def ray_left_def)

declare ray_attack.simps [simp del]

definition diagonal_attack :: "Board \<Rightarrow> int \<Rightarrow> int \<Rightarrow> color \<Rightarrow> bool" where
  "diagonal_attack b r c attacker_color =
     list_ex (\<lambda>(dr, dc). ray_attack (board b) attacker_color [Bishop, Queen] (r + dr) (c + dc) dr dc)
       diagonals"

definition straight_attack :: "Board \<Rightarrow> int \<Rightarrow> int \<Rightarrow> color \<Rightarrow> bool" where
  "straight_attack b r c attacker_color =
     list_ex (\<lambda>(dr, dc). ray_attack (board b) attacker_color [Rook, Queen] (r + dr) (c + dc) dr dc)
       straights"

definition is_square_attacked_by :: "Board \<Rightarrow> int \<Rightarrow> int \<Rightarrow> color \<Rightarrow> bool" where
  "is_square_attacked_by b r c attacker_color =
     (knight_attack b r c attacker_color
      \<or> pawn_attack b r c attacker_color
      \<or> king_attack b r c attacker_color
      \<or> diagonal_attack b r c attacker_color
      \<or> straight_attack b r c attacker_color)"

definition is_in_check :: "Board \<Rightarrow> color \<Rightarrow> bool" where
  "is_in_check b col =
     (case king_position b col of
        (kr, kc) \<Rightarrow>
          if kr = -1 then False
          else is_square_attacked_by b kr kc (if col = Black then White else Black))"

subsection \<open>Pseudo-legal move generation\<close>

definition pawn_moves :: "grid \<Rightarrow> color \<Rightarrow> int \<Rightarrow> int \<Rightarrow> move list" where
  "pawn_moves g col r c =
     (let dir = (if col = White then -1 else 1);
          start_row = (if col = White then 6 else 1);
          rr = r + dir
      in (if inside rr c \<and> sq g rr c = None then
            ((r, c), (rr, c)) #
              (if r = start_row \<and> sq g (r + 2 * dir) c = None
               then [((r, c), (r + 2 * dir, c))] else [])
          else [])
         @ concat (map (\<lambda>dc. if inside rr (c + dc) \<and> is_enemy (sq g rr (c + dc)) col
                              then [((r, c), (rr, c + dc))] else [])
                     [-1, 1]))"

text \<open>Knight and king: the offsets that stay on the board and do not hit a friend.\<close>

definition step_moves :: "grid \<Rightarrow> color \<Rightarrow> (int \<times> int) list \<Rightarrow> int \<Rightarrow> int \<Rightarrow> move list" where
  "step_moves g col offsets r c =
     concat (map (\<lambda>(dr, dc). if inside (r + dr) (c + dc)
                                  \<and> free_or_enemy (sq g (r + dr) (c + dc)) col
                               then [((r, c), (r + dr, c + dc))] else [])
               offsets)"

text \<open>
  One sliding ray from \<open>(r, c)\<close>, the walk being at \<open>(rr, cc)\<close>; the guard on the
  direction is the one of \<open>ray_attack\<close>.
\<close>

function slide_moves :: "grid \<Rightarrow> color \<Rightarrow> int \<Rightarrow> int \<Rightarrow> int \<Rightarrow> int \<Rightarrow> int \<Rightarrow> int \<Rightarrow> move list" where
  "slide_moves g col r c rr cc dr dc =
     (if inside rr cc \<and> (dr \<noteq> 0 \<or> dc \<noteq> 0) then
        (case sq g rr cc of
           None \<Rightarrow> ((r, c), (rr, cc)) # slide_moves g col r c (rr + dr) (cc + dc) dr dc
         | Some t \<Rightarrow> (if color t \<noteq> col then [((r, c), (rr, cc))] else []))
      else [])"
  by pat_completeness auto
termination
  by (relation "measure (\<lambda>(g, col, r, c, rr, cc, dr, dc). ray_left rr cc dr dc)")
     (auto simp: inside_def ray_left_def)

declare slide_moves.simps [simp del]

definition slider_directions :: "kind \<Rightarrow> (int \<times> int) list" where
  "slider_directions k =
     (if k = Bishop \<or> k = Queen then diagonals else [])
     @ (if k = Rook \<or> k = Queen then straights else [])"

definition piece_moves :: "grid \<Rightarrow> piece \<Rightarrow> int \<Rightarrow> int \<Rightarrow> move list" where
  "piece_moves g p r c =
     (case kind p of
        Pawn \<Rightarrow> pawn_moves g (color p) r c
      | Knight \<Rightarrow> step_moves g (color p) knight_offsets r c
      | King \<Rightarrow> step_moves g (color p) king_offsets r c
      | _ \<Rightarrow> concat (map (\<lambda>(dr, dc). slide_moves g (color p) r c (r + dr) (c + dc) dr dc)
                       (slider_directions (kind p))))"

text \<open>
  \<^verbatim>\<open>generate_pseudo_legal_moves_from(r, c)\<close>: the first read is not guarded by
  \<^verbatim>\<open>inside\<close>, so it is Python indexing and can raise.
\<close>

definition generate_pseudo_legal_moves_from :: "Board \<Rightarrow> int \<Rightarrow> int \<Rightarrow> error + move list" where
  "generate_pseudo_legal_moves_from b r c =
     (case cell (board b) r c of
        Inl e \<Rightarrow> Inl e
      | Inr None \<Rightarrow> Inr []
      | Inr (Some p) \<Rightarrow> Inr (piece_moves (board b) p r c))"

subsection \<open>Move application\<close>

text \<open>
  \<^verbatim>\<open>_make_move_no_checks\<close>: reads the source square, clears it, then fails on
  \<^verbatim>\<open>p.kind\<close> when the source was empty, else writes the destination.
\<close>

definition make_move_no_checks :: "Board \<Rightarrow> move \<Rightarrow> error + Board" where
  "make_move_no_checks b m =
     (case m of ((r1, c1), (r2, c2)) \<Rightarrow>
        (case cell (board b) r1 c1 of
           Inl e \<Rightarrow> Inl e
         | Inr p \<Rightarrow>
             (case set_cell (board b) r1 c1 None of
                Inl e \<Rightarrow> Inl e
              | Inr g1 \<Rightarrow>
                  (case p of
                     None \<Rightarrow> Inl AttributeError
                   | Some pc \<Rightarrow>
                       (case set_cell g1 r2 c2
                               (if kind pc = Pawn \<and> (r2 = 0 \<or> r2 = 7)
                                then Some (Piece (color pc) Queen) else Some pc) of
                          Inl e \<Rightarrow> Inl e
                        | Inr g2 \<Rightarrow> Inr (b\<lparr>board := g2\<rparr>))))))"

definition make_move :: "Board \<Rightarrow> move \<Rightarrow> error + Board" where
  "make_move b m =
     (case m of ((r1, c1), (r2, c2)) \<Rightarrow>
        (case cell (board b) r1 c1 of
           Inl e \<Rightarrow> Inl e
         | Inr moving \<Rightarrow>
             (case cell (board b) r2 c2 of
                Inl e \<Rightarrow> Inl e
              | Inr captured \<Rightarrow>
                  (case make_move_no_checks b m of
                     Inl e \<Rightarrow> Inl e
                   | Inr b1 \<Rightarrow>
                       (case moving of
                          None \<Rightarrow> Inl AttributeError
                        | Some mp \<Rightarrow>
                            Inr (b1\<lparr>halfmove_clock :=
                                      (if kind mp = Pawn \<or> captured \<noteq> None then 0
                                       else halfmove_clock b1 + 1),
                                    fullmove_number :=
                                      (if to_move b1 = Black then fullmove_number b1 + 1
                                       else fullmove_number b1),
                                    to_move := (if to_move b1 = Black then White else Black)\<rparr>))))))"

subsection \<open>Legality filter\<close>

definition is_legal_move :: "Board \<Rightarrow> move \<Rightarrow> color \<Rightarrow> error + bool" where
  "is_legal_move b m col =
     (case m of ((r1, c1), (r2, c2)) \<Rightarrow>
        (case cell (board b) r1 c1 of
           Inl e \<Rightarrow> Inl e
         | Inr None \<Rightarrow> Inr False
         | Inr (Some p) \<Rightarrow>
             if color p \<noteq> col then Inr False
             else (case make_move_no_checks (clone b) m of
                     Inl e \<Rightarrow> Inl e
                   | Inr b2 \<Rightarrow> Inr (\<not> is_in_check b2 col))))"

text \<open>
  A \<^verbatim>\<open>for\<close> loop that appends to a result list and stops at the first exception.
\<close>

fun collect :: "('a \<Rightarrow> error + 'b list) \<Rightarrow> 'a list \<Rightarrow> error + 'b list" where
  "collect f [] = Inr []"
| "collect f (x # xs) =
     (case f x of
        Inl e \<Rightarrow> Inl e
      | Inr ys \<Rightarrow> (case collect f xs of Inl e \<Rightarrow> Inl e | Inr zs \<Rightarrow> Inr (ys @ zs)))"

definition keep_legal :: "Board \<Rightarrow> color \<Rightarrow> move \<Rightarrow> error + move list" where
  "keep_legal b col m =
     (case is_legal_move b m col of
        Inl e \<Rightarrow> Inl e
      | Inr ok \<Rightarrow> Inr (if ok then [m] else []))"

definition legal_moves_from :: "Board \<Rightarrow> color \<Rightarrow> int \<times> int \<Rightarrow> error + move list" where
  "legal_moves_from b col rc =
     (case rc of (r, c) \<Rightarrow>
        (case sq (board b) r c of
           None \<Rightarrow> Inr []
         | Some p \<Rightarrow>
             if color p = col then
               (case generate_pseudo_legal_moves_from b r c of
                  Inl e \<Rightarrow> Inl e
                | Inr ms \<Rightarrow> collect (keep_legal b col) ms)
             else Inr []))"

definition generate_legal_moves :: "Board \<Rightarrow> color \<Rightarrow> error + move list" where
  "generate_legal_moves b col = collect (legal_moves_from b col) all_squares"

text \<open>
  The pseudo-legal moves of a colour, aggregated over its squares in the same scan order
  (the list \<open>generate_legal_moves\<close> filters).
\<close>

definition pseudo_moves_from :: "Board \<Rightarrow> color \<Rightarrow> int \<times> int \<Rightarrow> error + move list" where
  "pseudo_moves_from b col rc =
     (case rc of (r, c) \<Rightarrow>
        (case sq (board b) r c of
           None \<Rightarrow> Inr []
         | Some p \<Rightarrow>
             if color p = col then generate_pseudo_legal_moves_from b r c else Inr []))"

definition pseudo_legal_moves :: "Board \<Rightarrow> color \<Rightarrow> error + move list" where
  "pseudo_legal_moves b col = collect (pseudo_moves_from b col) all_squares"

subsection \<open>Move selection for Black\<close>

definition MATERIAL_VALUES :: "kind \<Rightarrow> int option" where
  "MATERIAL_VALUES =
     map_of [(King, 0), (Queen, 9), (Rook, 5), (Bishop, 3), (Knight, 3), (Pawn, 1)]"

text \<open>\<^verbatim>\<open>MATERIAL_VALUES.get(k, 0)\<close>.\<close>

definition material_get :: "kind \<Rightarrow> int" where
  "material_get k = (case MATERIAL_VALUES k of None \<Rightarrow> 0 | Some v \<Rightarrow> v)"

text \<open>
  The capture scan of \<^verbatim>\<open>choose_ai_move\<close>; the state is
  \<^verbatim>\<open>(best_capture_value, best_captures)\<close>.
\<close>

fun scan_captures :: "Board \<Rightarrow> move list \<Rightarrow> int \<times> move list \<Rightarrow> error + (int \<times> move list)" where
  "scan_captures b [] st = Inr st"
| "scan_captures b (((r1, c1), (r2, c2)) # ms) (best_capture_value, best_captures) =
     (case cell (board b) r2 c2 of
        Inl e \<Rightarrow> Inl e
      | Inr None \<Rightarrow> scan_captures b ms (best_capture_value, best_captures)
      | Inr (Some target) \<Rightarrow>
          if color target = White then
            (let val = material_get (kind target) in
               if val > best_capture_value then
                 scan_captures b ms (val, [((r1, c1), (r2, c2))])
               else if val = best_capture_value then
                 scan_captures b ms (best_capture_value, best_captures @ [((r1, c1), (r2, c2))])
               else scan_captures b ms (best_capture_value, best_captures))
          else scan_captures b ms (best_capture_value, best_captures))"

text \<open>
  \<^verbatim>\<open>random.choice(seq)\<close> returns \<^verbatim>\<open>seq[i]\<close> for a drawn \<open>i < len(seq)\<close> and raises
  \<^verbatim>\<open>IndexError\<close> on an empty sequence. The draw is the parameter \<open>n\<close>, reduced
  modulo the length: every \<open>i < len(seq)\<close> is the outcome of some draw, and nothing else is.
\<close>

definition random_choice :: "'a list \<Rightarrow> nat \<Rightarrow> error + 'a" where
  "random_choice xs n = (if xs = [] then Inl IndexError else Inr (xs ! (n mod length xs)))"

definition choose_ai_move :: "Board \<Rightarrow> nat \<Rightarrow> error + move option" where
  "choose_ai_move b n =
     (case generate_legal_moves b Black of
        Inl e \<Rightarrow> Inl e
      | Inr moves \<Rightarrow>
          if moves = [] then Inr None
          else (case scan_captures b moves (-1, []) of
                  Inl e \<Rightarrow> Inl e
                | Inr (best_capture_value, best_captures) \<Rightarrow>
                    (case random_choice (if best_captures \<noteq> [] then best_captures else moves) n of
                       Inl e \<Rightarrow> Inl e
                     | Inr m \<Rightarrow> Inr (Some m))))"

subsection \<open>Positions used below\<close>

text \<open>A colour has no king on any of the 64 squares.\<close>

definition kingless :: "Board \<Rightarrow> color \<Rightarrow> bool" where
  "kingless b col = list_all (\<lambda>(r, c). \<not> is_piece (sq (board b) r c) col King) all_squares"

text \<open>White king a1, Black king c2, Black queen b3, White to move.\<close>

definition stalemate_board :: Board where
  "stalemate_board =
     \<lparr>board = put (put (put empty_grid 7 0 (Piece White King)) 6 2 (Piece Black King))
                5 1 (Piece Black Queen),
      to_move = White, halfmove_clock = 0, fullmove_number = 1\<rparr>"

text \<open>White king e1, White pawn d3, Black king e4.\<close>

definition pawn_capture_board :: Board where
  "pawn_capture_board =
     \<lparr>board = put (put (put empty_grid 7 4 (Piece White King)) 5 3 (Piece White Pawn))
                4 4 (Piece Black King),
      to_move = White, halfmove_clock = 0, fullmove_number = 1\<rparr>"

text \<open>White king e1, White pawn c7, Black king h8.\<close>

definition promotion_board :: Board where
  "promotion_board =
     \<lparr>board = put (put (put empty_grid 7 4 (Piece White King)) 1 2 (Piece White Pawn))
                0 7 (Piece Black King),
      to_move = White, halfmove_clock = 5, fullmove_number = 30\<rparr>"

text \<open>A White pawn on a2 and the Black king on e8: White has no king.\<close>

definition kingless_board :: Board where
  "kingless_board =
     \<lparr>board = put (put empty_grid 6 0 (Piece White Pawn)) 0 4 (Piece Black King),
      to_move = White, halfmove_clock = 0, fullmove_number = 1\<rparr>"

text \<open>
  A game as the interactive loop plays it: \<^verbatim>\<open>make_move\<close> is called only with a move found
  in \<^verbatim>\<open>generate_legal_moves\<close> of the side to move (\<^verbatim>\<open>handle_mouse_click\<close> takes White's move
  from \<^verbatim>\<open>legal_targets\<close>, the AI turn takes Black's from \<^verbatim>\<open>choose_ai_move\<close>). The result is
  \<open>None\<close> when a move is not in that list or a call raises.
\<close>

fun play :: "Board \<Rightarrow> move list \<Rightarrow> Board option" where
  "play b [] = Some b"
| "play b (m # ms) =
     (case generate_legal_moves b (to_move b) of
        Inl e \<Rightarrow> None
      | Inr legal \<Rightarrow>
          if m \<in> set legal then
            (case make_move b m of Inl e \<Rightarrow> None | Inr b' \<Rightarrow> play b' ms)
          else None)"

text \<open>
  The position after 1. e4 d5 2. Ke2 d4: the White king on e2 \<open>(6, 4)\<close>, a Black pawn on d4
  \<open>(4, 3)\<close>, White to move.
\<close>

definition exposed_king_board :: Board where
  "exposed_king_board =
     \<lparr>board =
        [map (\<lambda>k. Some (Piece Black k)) back_rank_order,
         [Some (Piece Black Pawn), Some (Piece Black Pawn), Some (Piece Black Pawn), None,
          Some (Piece Black Pawn), Some (Piece Black Pawn), Some (Piece Black Pawn),
          Some (Piece Black Pawn)],
         replicate 8 None,
         replicate 8 None,
         [None, None, None, Some (Piece Black Pawn), Some (Piece White Pawn), None, None, None],
         replicate 8 None,
         [Some (Piece White Pawn), Some (Piece White Pawn), Some (Piece White Pawn),
          Some (Piece White Pawn), Some (Piece White King), Some (Piece White Pawn),
          Some (Piece White Pawn), Some (Piece White Pawn)],
         [Some (Piece White Rook), Some (Piece White Knight), Some (Piece White Bishop),
          Some (Piece White Queen), None, Some (Piece White Bishop),
          Some (Piece White Knight), Some (Piece White Rook)]],
      to_move = White, halfmove_clock = 0, fullmove_number = 3\<rparr>"

section \<open>The object store\<close>

text \<open>
  Whether a clone shares anything with its source is a question about object identity, so
  the objects of a game get addresses here: \<^verbatim>\<open>Piece\<close> objects, the row lists (whose cells
  hold \<^verbatim>\<open>None\<close> or a reference to a \<^verbatim>\<open>Piece\<close>), the outer lists (references to row lists)
  and the \<^verbatim>\<open>Board\<close> objects. \<open>lim\<close> is the first address not yet allocated; what the
  maps hold at or beyond \<open>lim\<close> is never read.
\<close>

type_synonym addr = nat

record Board_obj =
  board_ref :: addr
  to_move_of :: color
  halfmove_clock_of :: int
  fullmove_number_of :: int

record store =
  piece_at :: "addr \<Rightarrow> piece"
  row_at :: "addr \<Rightarrow> addr option list"
  rows_at :: "addr \<Rightarrow> addr list"
  board_at :: "addr \<Rightarrow> Board_obj"
  lim :: addr

definition new_piece :: "store \<Rightarrow> piece \<Rightarrow> store \<times> addr" where
  "new_piece s p = (s\<lparr>piece_at := (piece_at s)(lim s := p), lim := Suc (lim s)\<rparr>, lim s)"

definition new_row :: "store \<Rightarrow> addr option list \<Rightarrow> store \<times> addr" where
  "new_row s cells = (s\<lparr>row_at := (row_at s)(lim s := cells), lim := Suc (lim s)\<rparr>, lim s)"

definition new_rows :: "store \<Rightarrow> addr list \<Rightarrow> store \<times> addr" where
  "new_rows s rrefs = (s\<lparr>rows_at := (rows_at s)(lim s := rrefs), lim := Suc (lim s)\<rparr>, lim s)"

text \<open>The row references of a board object, \<^verbatim>\<open>self.board\<close> read as a list.\<close>

definition rows_of :: "store \<Rightarrow> addr \<Rightarrow> addr list" where
  "rows_of s b = rows_at s (board_ref (board_at s b))"

text \<open>The value a board object stands for: the pieces its cells refer to, and its scalars.\<close>

definition row_of :: "store \<Rightarrow> addr \<Rightarrow> piece option list" where
  "row_of s rref = map (map_option (piece_at s)) (row_at s rref)"

definition grid_of :: "store \<Rightarrow> addr \<Rightarrow> grid" where
  "grid_of s b = map (row_of s) (rows_of s b)"

definition board_of :: "store \<Rightarrow> addr \<Rightarrow> Board" where
  "board_of s b =
     \<lparr>board = grid_of s b,
      to_move = to_move_of (board_at s b),
      halfmove_clock = halfmove_clock_of (board_at s b),
      fullmove_number = fullmove_number_of (board_at s b)\<rparr>"

text \<open>
  Every address a board object owns: itself, its outer list, its row lists and the pieces
  in their cells.
\<close>

definition piece_refs :: "store \<Rightarrow> addr \<Rightarrow> addr list" where
  "piece_refs s b = concat (map (\<lambda>rref. concat (map (\<lambda>cl. case cl of None \<Rightarrow> [] | Some a \<Rightarrow> [a])
                                              (row_at s rref))) (rows_of s b))"

definition owned :: "store \<Rightarrow> addr \<Rightarrow> addr list" where
  "owned s b = b # board_ref (board_at s b) # rows_of s b @ piece_refs s b"

definition valid :: "store \<Rightarrow> addr \<Rightarrow> bool" where
  "valid s b = list_all (\<lambda>a. a < lim s) (owned s b)"

subsection \<open>\<^verbatim>\<open>clone\<close> on the store\<close>

text \<open>
  The comprehension \<^verbatim>\<open>[[None if p is None else Piece(p.color, p.kind) for p in row]
  for row in self.board]\<close>: a new \<^verbatim>\<open>Piece\<close> per occupied cell, a new list per row, a new
  outer list.
\<close>

definition clone_cell :: "store \<Rightarrow> addr option \<Rightarrow> store \<times> addr option" where
  "clone_cell s cl =
     (case cl of
        None \<Rightarrow> (s, None)
      | Some a \<Rightarrow>
          (case new_piece s (Piece (color (piece_at s a)) (kind (piece_at s a))) of
             (s', a') \<Rightarrow> (s', Some a')))"

fun clone_cells :: "store \<Rightarrow> addr option list \<Rightarrow> store \<times> addr option list" where
  "clone_cells s [] = (s, [])"
| "clone_cells s (cl # cls) =
     (case clone_cell s cl of
        (s1, cl') \<Rightarrow> (case clone_cells s1 cls of (s2, cls') \<Rightarrow> (s2, cl' # cls')))"

definition clone_row :: "store \<Rightarrow> addr \<Rightarrow> store \<times> addr" where
  "clone_row s rref = (case clone_cells s (row_at s rref) of (s1, cells) \<Rightarrow> new_row s1 cells)"

fun clone_rows :: "store \<Rightarrow> addr list \<Rightarrow> store \<times> addr list" where
  "clone_rows s [] = (s, [])"
| "clone_rows s (rref # rrefs) =
     (case clone_row s rref of
        (s1, rref') \<Rightarrow> (case clone_rows s1 rrefs of (s2, rrefs') \<Rightarrow> (s2, rref' # rrefs')))"

text \<open>
  \<^verbatim>\<open>Board.__new__(Board)\<close> takes the address of the new object first; its four attributes
  are then assigned, which is one write of the finished object here.
\<close>

definition clone_h :: "store \<Rightarrow> addr \<Rightarrow> store \<times> addr" where
  "clone_h s self =
     (let b = lim s;
          s0 = s\<lparr>lim := Suc (lim s)\<rparr>
      in case clone_rows s0 (rows_of s0 self) of
           (s1, rrefs) \<Rightarrow>
             (case new_rows s1 rrefs of
                (s2, gref) \<Rightarrow>
                  (s2\<lparr>board_at := (board_at s2)
                         (b := \<lparr>board_ref = gref,
                                to_move_of = to_move_of (board_at s2 self),
                                halfmove_clock_of = halfmove_clock_of (board_at s2 self),
                                fullmove_number_of = fullmove_number_of (board_at s2 self)\<rparr>)\<rparr>,
                   b)))"

subsection \<open>\<^verbatim>\<open>_make_move_no_checks\<close> on the store\<close>

text \<open>
  The result is the store the call leaves behind and the exception it raised, if any:
  the source cell is already cleared when \<^verbatim>\<open>p.kind\<close> or the second assignment fails.
\<close>

definition cell_h :: "store \<Rightarrow> addr \<Rightarrow> int \<Rightarrow> int \<Rightarrow> error + addr option" where
  "cell_h s b r c =
     (case py_get (rows_of s b) r of
        Inl e \<Rightarrow> Inl e
      | Inr rref \<Rightarrow> py_get (row_at s rref) c)"

definition set_cell_h :: "store \<Rightarrow> addr \<Rightarrow> int \<Rightarrow> int \<Rightarrow> addr option \<Rightarrow> store \<times> error option" where
  "set_cell_h s b r c v =
     (case py_get (rows_of s b) r of
        Inl e \<Rightarrow> (s, Some e)
      | Inr rref \<Rightarrow>
          (case py_set (row_at s rref) c v of
             Inl e \<Rightarrow> (s, Some e)
           | Inr cells \<Rightarrow> (s\<lparr>row_at := (row_at s)(rref := cells)\<rparr>, None)))"

definition make_move_no_checks_h :: "store \<Rightarrow> addr \<Rightarrow> move \<Rightarrow> store \<times> error option" where
  "make_move_no_checks_h s self m =
     (case m of ((r1, c1), (r2, c2)) \<Rightarrow>
        (case cell_h s self r1 c1 of
           Inl e \<Rightarrow> (s, Some e)
         | Inr p \<Rightarrow>
             (case set_cell_h s self r1 c1 None of
                (s1, Some e) \<Rightarrow> (s1, Some e)
              | (s1, None) \<Rightarrow>
                  (case p of
                     None \<Rightarrow> (s1, Some AttributeError)
                   | Some a \<Rightarrow>
                       if kind (piece_at s1 a) = Pawn \<and> (r2 = 0 \<or> r2 = 7) then
                         (case new_piece s1 (Piece (color (piece_at s1 a)) Queen) of
                            (s2, q) \<Rightarrow> set_cell_h s2 self r2 c2 (Some q))
                       else set_cell_h s1 self r2 c2 (Some a)))))"

subsection \<open>\<^verbatim>\<open>is_legal_move\<close> on the store\<close>

definition is_legal_move_h :: "store \<Rightarrow> addr \<Rightarrow> move \<Rightarrow> color \<Rightarrow> store \<times> (error + bool)" where
  "is_legal_move_h s self m col =
     (case m of ((r1, c1), (r2, c2)) \<Rightarrow>
        (case cell_h s self r1 c1 of
           Inl e \<Rightarrow> (s, Inl e)
         | Inr None \<Rightarrow> (s, Inr False)
         | Inr (Some a) \<Rightarrow>
             if color (piece_at s a) \<noteq> col then (s, Inr False)
             else (case clone_h s self of
                     (s1, b2) \<Rightarrow>
                       (case make_move_no_checks_h s1 b2 m of
                          (s2, Some e) \<Rightarrow> (s2, Inl e)
                        | (s2, None) \<Rightarrow> (s2, Inr (\<not> is_in_check (board_of s2 b2) col))))))"

subsection \<open>A concrete store\<close>

text \<open>
  The position \<open>promotion_board\<close> as objects: the board object at address 0, its outer list
  at 1, the row lists at 2 to 9 (row 0 first), the White king at 10, the White pawn at 11
  and the Black king at 12.
\<close>

definition promotion_store :: store where
  "promotion_store =
     \<lparr>piece_at = (\<lambda>_. Piece White Pawn)
                   (10 := Piece White King, 11 := Piece White Pawn, 12 := Piece Black King),
      row_at = (\<lambda>_. [])
                 (2 := [None, None, None, None, None, None, None, Some 12],
                  3 := [None, None, Some 11, None, None, None, None, None],
                  4 := replicate 8 None, 5 := replicate 8 None, 6 := replicate 8 None,
                  7 := replicate 8 None, 8 := replicate 8 None,
                  9 := [None, None, None, None, Some 10, None, None, None]),
      rows_at = (\<lambda>_. [])(1 := [2, 3, 4, 5, 6, 7, 8, 9]),
      board_at = (\<lambda>_. \<lparr>board_ref = 1, to_move_of = White, halfmove_clock_of = 5,
                          fullmove_number_of = 30\<rparr>),
      lim = 13\<rparr>"

text \<open>Any number of moves applied to one board object, each as the previous one left the store.\<close>

fun make_moves_h :: "store \<Rightarrow> addr \<Rightarrow> move list \<Rightarrow> store" where
  "make_moves_h s b [] = s"
| "make_moves_h s b (m # ms) = make_moves_h (fst (make_move_no_checks_h s b m)) b ms"

text \<open>
  Two stores agree below \<open>L\<close>: every object at an address below \<open>L\<close> is the same in both.
\<close>

definition agree :: "addr \<Rightarrow> store \<Rightarrow> store \<Rightarrow> bool" where
  "agree L s s' =
     (\<forall>a<L. piece_at s' a = piece_at s a \<and> row_at s' a = row_at s a
             \<and> rows_at s' a = rows_at s a \<and> board_at s' a = board_at s a)"

section \<open>Properties\<close>

lemma py_norm_less: "py_norm n i = Inr j \<Longrightarrow> j < n"
  by (auto simp: py_norm_def split: if_splits)

lemma wf_grid_row: "wf_grid g \<Longrightarrow> j < 8 \<Longrightarrow> length (g ! j) = 8"
  by (simp add: wf_grid_def list_all_length)

lemma wf_grid_length: "wf_grid g \<Longrightarrow> length g = 8"
  by (simp add: wf_grid_def)

lemma wf_grid_row_int: "wf_grid g \<Longrightarrow> 0 \<le> r \<Longrightarrow> r < 8 \<Longrightarrow> length (g ! nat r) = 8"
  by (rule wf_grid_row) auto

lemma cell_inside: "wf_grid g \<Longrightarrow> inside r c \<Longrightarrow> cell g r c = Inr (sq g r c)"
  by (simp add: cell_def py_get_def py_norm_def inside_def sq_def wf_grid_length wf_grid_row_int)

lemma set_cell_inside:
  "wf_grid g \<Longrightarrow> inside r c \<Longrightarrow> set_cell g r c v = Inr (g[nat r := (g ! nat r)[nat c := v]])"
  by (simp add: set_cell_def py_get_def py_set_def py_norm_def inside_def wf_grid_length wf_grid_row_int)

lemma wf_grid_update:
  "wf_grid g \<Longrightarrow> wf_grid (g[i := (g ! i)[j := v]])"
  by (cases "i < length g") (auto simp: wf_grid_def list_all_length nth_list_update)

lemma sq_update:
  "wf_grid g \<Longrightarrow> inside r c \<Longrightarrow> inside r' c' \<Longrightarrow>
   sq (g[nat r := (g ! nat r)[nat c := v]]) r' c' = (if r' = r \<and> c' = c then v else sq g r' c')"
  by (auto simp: sq_def inside_def wf_grid_def list_all_length nth_list_update)

lemma cell_Inr_cases:
  "cell g r c = Inr t \<Longrightarrow> \<exists>j k. py_norm (length g) r = Inr j \<and> py_norm (length (g ! j)) c = Inr k \<and> t = g ! j ! k"
  by (auto simp: cell_def py_get_def split: sum.splits)

lemma set_cell_norm:
  "py_norm (length g) r = Inr j \<Longrightarrow> py_norm (length (g ! j)) c = Inr k \<Longrightarrow>
   set_cell g r c v = Inr (g[j := (g ! j)[k := v]])"
  by (simp add: set_cell_def py_get_def py_set_def)

lemma cell_norm:
  "py_norm (length g) r = Inr j \<Longrightarrow> py_norm (length (g ! j)) c = Inr k \<Longrightarrow>
   cell g r c = Inr (g ! j ! k)"
  by (simp add: cell_def py_get_def)

lemma set_cell_shape:
  assumes "set_cell g r c v = Inr g'"
  shows "length g' = length g" and "length (g' ! j) = length (g ! j)"
proof -
  from assms obtain i k where g': "g' = g[i := (g ! i)[k := v]]"
    by (auto simp: set_cell_def py_get_def py_set_def split: sum.splits)
  show "length g' = length g" by (simp add: g')
  show "length (g' ! j) = length (g ! j)"
    by (cases "i < length g"; cases "j = i") (simp_all add: g' list_update_beyond)
qed

lemma set_cell_after_cell:
  assumes "cell g r c = Inr t"
  shows "\<exists>g'. set_cell g r c v = Inr g' \<and> cell g' r c = Inr v"
proof -
  from cell_Inr_cases [OF assms] obtain j k
    where j: "py_norm (length g) r = Inr j" and k: "py_norm (length (g ! j)) c = Inr k"
    by blast
  let ?g' = "g[j := (g ! j)[k := v]]"
  have s: "set_cell g r c v = Inr ?g'" by (rule set_cell_norm [OF j k])
  have jl: "j < length g" and kl: "k < length (g ! j)"
    using py_norm_less [OF j] py_norm_less [OF k] by auto
  have "cell ?g' r c = Inr (?g' ! j ! k)"
    by (rule cell_norm) (simp_all add: j k jl)
  also have "?g' ! j ! k = v" using jl kl by simp
  finally show ?thesis using s by simp
qed

lemma cell_shape:
  assumes "cell g r c = Inr t" and "length g' = length g"
    and "\<And>j. length (g' ! j) = length (g ! j)"
  shows "\<exists>t'. cell g' r c = Inr t'"
proof -
  from cell_Inr_cases [OF assms(1)] obtain j k
    where j: "py_norm (length g) r = Inr j" and k: "py_norm (length (g ! j)) c = Inr k"
    by blast
  have "cell g' r c = Inr (g' ! j ! k)"
    by (rule cell_norm) (simp_all add: assms j k)
  then show ?thesis by blast
qed

lemma make_move_no_checks_dest:
  assumes src: "cell (board b) r1 c1 = Inr (Some p)"
    and dst: "cell (board b) r2 c2 = Inr t"
  shows "\<exists>g1 g2. set_cell (board b) r1 c1 None = Inr g1
           \<and> set_cell g1 r2 c2 (if kind p = Pawn \<and> (r2 = 0 \<or> r2 = 7)
                                then Some (Piece (color p) Queen) else Some p) = Inr g2
           \<and> make_move_no_checks b ((r1, c1), (r2, c2)) = Inr (b\<lparr>board := g2\<rparr>)
           \<and> cell g2 r2 c2 = Inr (if kind p = Pawn \<and> (r2 = 0 \<or> r2 = 7)
                                then Some (Piece (color p) Queen) else Some p)"
proof -
  let ?v = "if kind p = Pawn \<and> (r2 = 0 \<or> r2 = 7) then Some (Piece (color p) Queen) else Some p"
  from set_cell_after_cell [OF src] obtain g1
    where g1: "set_cell (board b) r1 c1 None = Inr g1" by blast
  from cell_shape [OF dst set_cell_shape [OF g1]] obtain t'
    where t': "cell g1 r2 c2 = Inr t'" by blast
  from set_cell_after_cell [OF t'] obtain g2
    where g2: "set_cell g1 r2 c2 ?v = Inr g2" and rd: "cell g2 r2 c2 = Inr ?v" by blast
  have "make_move_no_checks b ((r1, c1), (r2, c2)) = Inr (b\<lparr>board := g2\<rparr>)"
    using src g1 g2 by (simp add: make_move_no_checks_def)
  with g1 g2 rd show ?thesis by blast
qed

text \<open>
  C3. When \<^verbatim>\<open>_make_move_no_checks\<close> moves a pawn to row 0 or row 7, the destination
  square afterwards holds a queen of the pawn's colour; in every other case it holds the
  moved piece itself, unchanged. The side to move and both counters are not touched.
\<close>

theorem promotion_to_queen:
  assumes "cell (board b) r1 c1 = Inr (Some p)"
    and "cell (board b) r2 c2 = Inr t"
  shows "\<exists>b'. make_move_no_checks b ((r1, c1), (r2, c2)) = Inr b'
           \<and> cell (board b') r2 c2 =
               Inr (Some (if kind p = Pawn \<and> (r2 = 0 \<or> r2 = 7)
                          then Piece (color p) Queen else p))
           \<and> to_move b' = to_move b \<and> halfmove_clock b' = halfmove_clock b
           \<and> fullmove_number b' = fullmove_number b"
proof -
  from make_move_no_checks_dest [OF assms] obtain g2
    where "make_move_no_checks b ((r1, c1), (r2, c2)) = Inr (b\<lparr>board := g2\<rparr>)"
      and "cell g2 r2 c2 = Inr (if kind p = Pawn \<and> (r2 = 0 \<or> r2 = 7)
                                then Some (Piece (color p) Queen) else Some p)"
    by blast
  then show ?thesis by (auto split: if_splits)
qed

text \<open>The theorem at a concrete position.\<close>

theorem promotion_to_queen_witness:
  "cell (board promotion_board) 1 2 = Inr (Some (Piece White Pawn))
   \<and> cell (board promotion_board) 0 2 = Inr None
   \<and> (\<exists>b'. make_move_no_checks promotion_board ((1, 2), (0, 2)) = Inr b'
          \<and> cell (board b') 0 2 = Inr (Some (Piece White Queen)))"
proof -
  have src: "cell (board promotion_board) 1 2 = Inr (Some (Piece White Pawn))" by code_simp
  have dst: "cell (board promotion_board) 0 2 = Inr None" by code_simp
  from promotion_to_queen [OF src dst]
  have "\<exists>b'. make_move_no_checks promotion_board ((1, 2), (0, 2)) = Inr b'
          \<and> cell (board b') 0 2 = Inr (Some (Piece White Queen))"
    by auto
  with src dst show ?thesis by blast
qed

text \<open>
  C4. When the source square holds a piece, \<^verbatim>\<open>make_move\<close> sets the half-move clock to
  0 if that piece is a pawn or the destination was occupied before the move and increments
  it otherwise, increments the full-move counter exactly when Black was to move, and
  toggles the side to move.
\<close>

theorem make_move_clocks:
  assumes "cell (board b) r1 c1 = Inr (Some p)"
    and "cell (board b) r2 c2 = Inr t"
  shows "\<exists>b'. make_move b ((r1, c1), (r2, c2)) = Inr b'
           \<and> halfmove_clock b' = (if kind p = Pawn \<or> t \<noteq> None then 0 else halfmove_clock b + 1)
           \<and> fullmove_number b' = (if to_move b = Black then fullmove_number b + 1 else fullmove_number b)
           \<and> to_move b' = (if to_move b = Black then White else Black)
           \<and> to_move b' \<noteq> to_move b"
proof -
  from make_move_no_checks_dest [OF assms] obtain g2
    where "make_move_no_checks b ((r1, c1), (r2, c2)) = Inr (b\<lparr>board := g2\<rparr>)"
    by blast
  then show ?thesis using assms
    by (cases "to_move b") (simp_all add: make_move_def)
qed

text \<open>The theorem at a concrete position.\<close>

theorem make_move_clocks_witness:
  "cell (board promotion_board) 7 4 = Inr (Some (Piece White King))
   \<and> cell (board promotion_board) 6 4 = Inr None
   \<and> (\<exists>b'. make_move promotion_board ((7, 4), (6, 4)) = Inr b'
          \<and> halfmove_clock b' = 6 \<and> fullmove_number b' = 30 \<and> to_move b' = Black)"
proof -
  have src: "cell (board promotion_board) 7 4 = Inr (Some (Piece White King))" by code_simp
  have dst: "cell (board promotion_board) 6 4 = Inr None" by code_simp
  have "to_move promotion_board = White" "halfmove_clock promotion_board = 5"
    "fullmove_number promotion_board = 30"
    by (simp_all add: promotion_board_def)
  with make_move_clocks [OF src dst]
  have "\<exists>b'. make_move promotion_board ((7, 4), (6, 4)) = Inr b'
          \<and> halfmove_clock b' = 6 \<and> fullmove_number b' = 30 \<and> to_move b' = Black"
    by auto
  with src dst show ?thesis by blast
qed

lemma clone_ident: "clone b = b"
proof -
  have "(\<lambda>p. case p of None \<Rightarrow> None | Some q \<Rightarrow> Some (Piece (color q) (kind q))) = id"
    by (auto simp: fun_eq_iff split: option.splits)
  then show ?thesis by (simp add: clone_def)
qed

lemma all_squares_iff: "(r, c) \<in> set all_squares \<longleftrightarrow> inside r c"
proof -
  have "\<And>x::int. x \<in> set range8 \<longleftrightarrow> 0 \<le> x \<and> x < 8"
    by (auto simp: range8_def)
  then show ?thesis by (auto simp: all_squares_def inside_def)
qed

lemma slide_moves_shape:
  "m \<in> set (slide_moves g col r c rr cc dr dc) \<Longrightarrow>
   fst m = (r, c) \<and> inside (fst (snd m)) (snd (snd m))"
proof (induction g col r c rr cc dr dc rule: slide_moves.induct)
  case (1 g col r c rr cc dr dc)
  show ?case
  proof (cases "inside rr cc \<and> (dr \<noteq> 0 \<or> dc \<noteq> 0)")
    case False
    with "1.prems" show ?thesis by (simp add: slide_moves.simps)
  next
    case True
    show ?thesis
    proof (cases "sq g rr cc")
      case None
      with True "1.prems" have "m = ((r, c), (rr, cc))
          \<or> m \<in> set (slide_moves g col r c (rr + dr) (cc + dc) dr dc)"
        by (subst (asm) slide_moves.simps) auto
      then show ?thesis using "1.IH" [OF True None] True by auto
    next
      case (Some t)
      with True "1.prems" have "m = ((r, c), (rr, cc))"
        by (subst (asm) slide_moves.simps) (auto split: if_splits)
      then show ?thesis using True by simp
    qed
  qed
qed

lemma pawn_moves_shape:
  "m \<in> set (pawn_moves g col r c) \<Longrightarrow> fst m = (r, c) \<and> inside (fst (snd m)) (snd (snd m))"
  by (auto simp: pawn_moves_def Let_def inside_def split: if_splits)

lemma step_moves_shape:
  "m \<in> set (step_moves g col offs r c) \<Longrightarrow> fst m = (r, c) \<and> inside (fst (snd m)) (snd (snd m))"
  by (auto simp: step_moves_def split: if_splits)

lemma piece_moves_shape:
  "m \<in> set (piece_moves g p r c) \<Longrightarrow> fst m = (r, c) \<and> inside (fst (snd m)) (snd (snd m))"
  by (cases "kind p")
     (auto simp: piece_moves_def dest: pawn_moves_shape step_moves_shape slide_moves_shape)

lemma generate_pseudo_legal_moves_from_inside:
  "wf_grid (board b) \<Longrightarrow> inside r c \<Longrightarrow>
   generate_pseudo_legal_moves_from b r c =
     Inr (case sq (board b) r c of None \<Rightarrow> [] | Some p \<Rightarrow> piece_moves (board b) p r c)"
  by (simp add: generate_pseudo_legal_moves_from_def cell_inside split: option.splits)

lemma make_move_no_checks_inside:
  assumes wf: "wf_grid (board b)" and src: "inside r1 c1" and p: "sq (board b) r1 c1 = Some p"
    and dst: "inside r2 c2"
  shows "\<exists>b'. make_move_no_checks b ((r1, c1), (r2, c2)) = Inr b' \<and> wf_grid (board b')
           \<and> (\<forall>r c. inside r c \<longrightarrow> sq (board b') r c =
                 (if r = r2 \<and> c = c2 then
                    (if kind p = Pawn \<and> (r2 = 0 \<or> r2 = 7)
                     then Some (Piece (color p) Queen) else Some p)
                  else if r = r1 \<and> c = c1 then None
                  else sq (board b) r c))"
proof -
  let ?g = "board b"
  let ?g1 = "?g[nat r1 := (?g ! nat r1)[nat c1 := None]]"
  let ?v = "if kind p = Pawn \<and> (r2 = 0 \<or> r2 = 7) then Some (Piece (color p) Queen) else Some p"
  let ?g2 = "?g1[nat r2 := (?g1 ! nat r2)[nat c2 := ?v]]"
  have wf1: "wf_grid ?g1" by (rule wf_grid_update [OF wf])
  have wf2: "wf_grid ?g2" by (rule wf_grid_update [OF wf1])
  have "make_move_no_checks b ((r1, c1), (r2, c2)) = Inr (b\<lparr>board := ?g2\<rparr>)"
    using cell_inside [OF wf src] p set_cell_inside [OF wf src, of None]
      set_cell_inside [OF wf1 dst, of ?v]
    by (simp add: make_move_no_checks_def)
  moreover have "\<forall>r c. inside r c \<longrightarrow> sq ?g2 r c =
                 (if r = r2 \<and> c = c2 then ?v
                  else if r = r1 \<and> c = c1 then None
                  else sq ?g r c)"
    using sq_update [OF wf1 dst, of _ _ ?v] sq_update [OF wf src, of _ _ None] by simp
  ultimately show ?thesis using wf2 by simp
qed

lemma collect_total:
  "(\<And>x. x \<in> set xs \<Longrightarrow> \<exists>ys. f x = Inr ys) \<Longrightarrow> \<exists>zs. collect f xs = Inr zs"
proof (induction xs)
  case Nil
  show ?case by simp
next
  case (Cons x xs)
  from Cons.prems [of x] obtain ys where "f x = Inr ys" by auto
  moreover from Cons.IH Cons.prems obtain zs where "collect f xs = Inr zs" by auto
  ultimately show ?case by simp
qed

lemma collect_member:
  "collect f xs = Inr zs \<Longrightarrow>
   m \<in> set zs \<longleftrightarrow> (\<exists>x ys. x \<in> set xs \<and> f x = Inr ys \<and> m \<in> set ys)"
proof (induction xs arbitrary: zs)
  case Nil
  then show ?case by auto
next
  case (Cons x xs)
  from Cons.prems obtain ys zs' where fx: "f x = Inr ys" and rest: "collect f xs = Inr zs'"
    and zs: "zs = ys @ zs'"
    by (auto split: sum.splits)
  show ?case using Cons.IH [OF rest] fx zs by auto
qed

text \<open>On an 8 by 8 grid the legality test of a generated move does not raise.\<close>

lemma is_legal_move_generated:
  assumes wf: "wf_grid (board b)" and src: "inside r c" and p: "sq (board b) r c = Some p"
    and col: "color p = col" and m: "m \<in> set (piece_moves (board b) p r c)"
  shows "\<exists>b2. make_move_no_checks (clone b) m = Inr b2
           \<and> is_legal_move b m col = Inr (\<not> is_in_check b2 col)"
proof -
  obtain r2 c2 where m_eq: "m = ((r, c), (r2, c2))" and dst: "inside r2 c2"
    using piece_moves_shape [OF m] by (cases m) auto
  from make_move_no_checks_inside [OF wf src p dst] obtain b2
    where b2: "make_move_no_checks b ((r, c), (r2, c2)) = Inr b2" by blast
  then show ?thesis
    using cell_inside [OF wf src] p col by (simp add: is_legal_move_def m_eq clone_ident)
qed

lemma legal_moves_from_total:
  assumes wf: "wf_grid (board b)" and rc: "rc \<in> set all_squares"
  shows "\<exists>ms. legal_moves_from b col rc = Inr ms"
proof -
  obtain r c where rc_eq: "rc = (r, c)" by (cases rc)
  with rc have ins: "inside r c" by (simp add: all_squares_iff)
  show ?thesis
  proof (cases "sq (board b) r c")
    case None
    then show ?thesis by (simp add: legal_moves_from_def rc_eq)
  next
    case (Some p)
    show ?thesis
    proof (cases "color p = col")
      case False
      with Some show ?thesis by (simp add: legal_moves_from_def rc_eq)
    next
      case True
      have "\<exists>zs. collect (keep_legal b col) (piece_moves (board b) p r c) = Inr zs"
      proof (rule collect_total)
        fix m assume "m \<in> set (piece_moves (board b) p r c)"
        from is_legal_move_generated [OF wf ins Some True this]
        show "\<exists>ys. keep_legal b col m = Inr ys" by (auto simp: keep_legal_def)
      qed
      then show ?thesis
        using Some True generate_pseudo_legal_moves_from_inside [OF wf ins]
        by (simp add: legal_moves_from_def rc_eq)
    qed
  qed
qed

lemma generate_legal_moves_total:
  "wf_grid (board b) \<Longrightarrow> \<exists>ms. generate_legal_moves b col = Inr ms"
  unfolding generate_legal_moves_def
  by (rule collect_total) (rule legal_moves_from_total)

lemma legal_moves_from_member:
  assumes "legal_moves_from b col rc = Inr ms" and "m \<in> set ms"
  shows "is_legal_move b m col = Inr True"
proof -
  obtain r c where rc_eq: "rc = (r, c)" by (cases rc)
  from assms obtain ps where "collect (keep_legal b col) ps = Inr ms"
    by (auto simp: legal_moves_from_def rc_eq split: option.splits if_splits sum.splits)
  from collect_member [OF this, of m] assms(2)
  obtain x ys where "keep_legal b col x = Inr ys" and "m \<in> set ys" by blast
  then show ?thesis
    by (auto simp: keep_legal_def split: sum.splits if_splits)
qed

lemma generate_legal_moves_member:
  assumes "generate_legal_moves b col = Inr ms" and "m \<in> set ms"
  shows "is_legal_move b m col = Inr True"
proof -
  from collect_member [OF assms(1) [unfolded generate_legal_moves_def], of m] assms(2)
  obtain rc ys where "legal_moves_from b col rc = Inr ys" and "m \<in> set ys" by blast
  then show ?thesis by (rule legal_moves_from_member)
qed

lemma is_legal_move_True:
  assumes "is_legal_move b m col = Inr True"
  shows "\<exists>b2. make_move_no_checks (clone b) m = Inr b2 \<and> \<not> is_in_check b2 col"
proof -
  obtain r1 c1 r2 c2 where "m = ((r1, c1), (r2, c2))" by (cases m) auto
  with assms show ?thesis
    by (auto simp: is_legal_move_def split: sum.splits option.splits if_splits)
qed

text \<open>
  What the filter does establish: on every 8 by 8 board \<^verbatim>\<open>generate_legal_moves\<close> returns,
  and each move it returns passes the code's own test, \<^verbatim>\<open>is_in_check\<close> on the clone after
  \<^verbatim>\<open>_make_move_no_checks\<close>. That test inherits the pawn clause of
  \<^verbatim>\<open>is_square_attacked_by\<close>.
\<close>

lemma legal_moves_pass_check_test:
  assumes "wf_grid (board b)"
  shows "\<exists>ms. generate_legal_moves b col = Inr ms
           \<and> (\<forall>m \<in> set ms. \<exists>b2. make_move_no_checks (clone b) m = Inr b2
                                   \<and> is_in_check b2 col = False)"
proof -
  from generate_legal_moves_total [OF assms] obtain ms
    where ms: "generate_legal_moves b col = Inr ms" by blast
  have "\<exists>b2. make_move_no_checks (clone b) m = Inr b2 \<and> is_in_check b2 col = False"
    if "m \<in> set ms" for m
    using is_legal_move_True [OF generate_legal_moves_member [OF ms that]] by simp
  with ms show ?thesis by blast
qed

lemma legal_moves_from_generated:
  assumes wf: "wf_grid (board b)" and rc: "(r, c) \<in> set all_squares"
    and ms: "legal_moves_from b col (r, c) = Inr ms" and m: "m \<in> set ms"
  shows "\<exists>p. sq (board b) r c = Some p \<and> color p = col \<and> m \<in> set (piece_moves (board b) p r c)"
proof -
  from rc have ins: "inside r c" by (simp add: all_squares_iff)
  from ms m obtain p where p: "sq (board b) r c = Some p" and col: "color p = col"
    by (auto simp: legal_moves_from_def split: option.splits if_splits)
  with ms generate_pseudo_legal_moves_from_inside [OF wf ins]
  have "collect (keep_legal b col) (piece_moves (board b) p r c) = Inr ms"
    by (simp add: legal_moves_from_def)
  from collect_member [OF this, of m] m
  obtain x ys where "x \<in> set (piece_moves (board b) p r c)"
    and "keep_legal b col x = Inr ys" and "m \<in> set ys" by blast
  then have "m \<in> set (piece_moves (board b) p r c)"
    by (auto simp: keep_legal_def split: sum.splits if_splits)
  with p col show ?thesis by blast
qed

lemma generate_legal_moves_inside:
  assumes wf: "wf_grid (board b)" and ms: "generate_legal_moves b col = Inr ms"
    and m: "m \<in> set ms"
  shows "inside (fst (snd m)) (snd (snd m))"
proof -
  from collect_member [OF ms [unfolded generate_legal_moves_def], of m] m
  obtain rc ys where rc: "rc \<in> set all_squares"
    and ys: "legal_moves_from b col rc = Inr ys" and my: "m \<in> set ys" by blast
  obtain r c where rc_eq: "rc = (r, c)" by (cases rc)
  from legal_moves_from_generated [OF wf rc [unfolded rc_eq] ys [unfolded rc_eq] my]
  show ?thesis using piece_moves_shape by blast
qed

lemma scan_captures_total:
  assumes wf: "wf_grid (board b)"
  shows "(\<And>m. m \<in> set ms \<Longrightarrow> inside (fst (snd m)) (snd (snd m))) \<Longrightarrow>
         \<exists>v bc. scan_captures b ms (v0, bc0) = Inr (v, bc) \<and> set bc \<subseteq> set bc0 \<union> set ms"
proof (induction ms arbitrary: v0 bc0)
  case Nil
  show ?case by simp
next
  case (Cons m ms)
  obtain r1 c1 r2 c2 where m_eq: "m = ((r1, c1), (r2, c2))" by (cases m) auto
  from Cons.prems [of m] have "inside r2 c2" by (simp add: m_eq)
  then have rd: "cell (board b) r2 c2 = Inr (sq (board b) r2 c2)"
    by (rule cell_inside [OF wf])
  have step: "\<exists>v bc. scan_captures b ms (v1, bc1) = Inr (v, bc) \<and> set bc \<subseteq> set bc1 \<union> set ms"
    for v1 bc1
    using Cons.IH Cons.prems by simp
  show ?case
  proof (cases "sq (board b) r2 c2")
    case None
    with rd step [of v0 bc0] show ?thesis by (auto simp: m_eq)
  next
    case (Some target)
    consider (other) "color target \<noteq> White \<or> material_get (kind target) < v0"
      | (better) "color target = White" "material_get (kind target) > v0"
      | (equal) "color target = White" "material_get (kind target) = v0"
      by fastforce
    then show ?thesis
    proof cases
      case other
      with rd Some step [of v0 bc0] show ?thesis by (auto simp: m_eq Let_def)
    next
      case better
      with rd Some step [of "material_get (kind target)" "[m]"] show ?thesis
        by (auto simp: m_eq Let_def)
    next
      case equal
      with rd Some step [of v0 "bc0 @ [m]"] show ?thesis
        by (auto simp: m_eq Let_def)
    qed
  qed
qed

text \<open>
  C8. \<^verbatim>\<open>choose_ai_move\<close> returns \<^verbatim>\<open>None\<close> exactly when Black has no legal move, and
  whatever the random draw, a move it returns is one of Black's legal moves.
\<close>

theorem choose_ai_move_legal:
  assumes wf: "wf_grid (board b)"
  shows "\<exists>ms. generate_legal_moves b Black = Inr ms
           \<and> (\<forall>n. \<exists>res. choose_ai_move b n = Inr res
                  \<and> (res = None \<longleftrightarrow> ms = [])
                  \<and> (\<forall>m. res = Some m \<longrightarrow> m \<in> set ms))"
proof -
  from generate_legal_moves_total [OF wf] obtain ms
    where ms: "generate_legal_moves b Black = Inr ms" by blast
  have "\<exists>res. choose_ai_move b n = Inr res \<and> (res = None \<longleftrightarrow> ms = [])
           \<and> (\<forall>m. res = Some m \<longrightarrow> m \<in> set ms)" for n
  proof (cases "ms = []")
    case True
    with ms show ?thesis by (simp add: choose_ai_move_def)
  next
    case False
    from scan_captures_total [OF wf, of ms "-1" "[]"] generate_legal_moves_inside [OF wf ms]
    obtain v bc where sc: "scan_captures b ms (-1, []) = Inr (v, bc)" and sub: "set bc \<subseteq> set ms"
      by auto
    define xs where "xs = (if bc \<noteq> [] then bc else ms)"
    define m where "m = xs ! (n mod length xs)"
    have ne: "xs \<noteq> []" using False by (simp add: xs_def)
    then have "m \<in> set xs" unfolding m_def by (intro nth_mem) simp
    with sub have "m \<in> set ms" by (auto simp: xs_def split: if_splits)
    moreover have "choose_ai_move b n = Inr (Some m)"
      using ms False sc ne by (simp add: choose_ai_move_def random_choice_def xs_def m_def)
    ultimately show ?thesis using False by blast
  qed
  with ms show ?thesis by blast
qed

text \<open>The theorem at a concrete position.\<close>

theorem choose_ai_move_legal_witness:
  "wf_grid (board new_board)
   \<and> (\<exists>ms. generate_legal_moves new_board Black = Inr ms \<and> ms \<noteq> []
          \<and> (\<exists>m. choose_ai_move new_board 5 = Inr (Some m) \<and> m \<in> set ms))"
proof -
  have wf: "wf_grid (board new_board)" by code_simp
  have ne: "(case generate_legal_moves new_board Black of Inl e \<Rightarrow> False | Inr ms \<Rightarrow> ms \<noteq> [])"
    by code_simp
  from choose_ai_move_legal [OF wf] obtain ms
    where ms: "generate_legal_moves new_board Black = Inr ms"
      and ch: "\<And>n. \<exists>res. choose_ai_move new_board n = Inr res \<and> (res = None \<longleftrightarrow> ms = [])
                 \<and> (\<forall>m. res = Some m \<longrightarrow> m \<in> set ms)"
    by blast
  from ne ms have "ms \<noteq> []" by simp
  with ch [of 5] have "\<exists>m. choose_ai_move new_board 5 = Inr (Some m) \<and> m \<in> set ms"
    by (metis option.exhaust)
  with wf ms \<open>ms \<noteq> []\<close> show ?thesis by blast
qed

lemma kingless_iff:
  "kingless b col \<longleftrightarrow> (\<forall>r c. inside r c \<longrightarrow> \<not> is_piece (sq (board b) r c) col King)"
  by (auto simp: kingless_def list_all_iff all_squares_iff)

lemma kingless_king_position: "kingless b col \<Longrightarrow> king_position b col = (-1, -1)"
proof -
  assume "kingless b col"
  then have "find (\<lambda>(r, c). is_piece (sq (board b) r c) col King) all_squares = None"
    by (auto simp: kingless_def list_all_iff find_None_iff)
  then show ?thesis by (simp add: king_position_def)
qed

lemma kingless_not_in_check: "kingless b col \<Longrightarrow> is_in_check b col = False"
  by (simp add: is_in_check_def kingless_king_position)

lemma kingless_preserved:
  assumes wf: "wf_grid (board b)" and nk: "kingless b col" and src: "inside r c"
    and p: "sq (board b) r c = Some p" and m: "m \<in> set (piece_moves (board b) p r c)"
    and b2: "make_move_no_checks b m = Inr b2"
  shows "kingless b2 col"
proof -
  obtain r2 c2 where m_eq: "m = ((r, c), (r2, c2))" and dst: "inside r2 c2"
    using piece_moves_shape [OF m] by (cases m) auto
  from nk src have "\<not> is_piece (sq (board b) r c) col King" by (simp add: kingless_iff)
  with p have pk: "\<not> (color p = col \<and> kind p = King)" by (simp add: is_piece_def)
  from make_move_no_checks_inside [OF wf src p dst] b2
  have sqs: "\<And>r' c'. inside r' c' \<Longrightarrow> sq (board b2) r' c' =
                 (if r' = r2 \<and> c' = c2 then
                    (if kind p = Pawn \<and> (r2 = 0 \<or> r2 = 7)
                     then Some (Piece (color p) Queen) else Some p)
                  else if r' = r \<and> c' = c then None
                  else sq (board b) r' c')"
    by (auto simp: m_eq)
  show ?thesis unfolding kingless_iff
  proof (intro allI impI)
    fix r' c' assume ins: "inside r' c'"
    from nk ins have "\<not> is_piece (sq (board b) r' c') col King" by (simp add: kingless_iff)
    then show "\<not> is_piece (sq (board b2) r' c') col King"
      using pk by (auto simp: sqs [OF ins] is_piece_def)
  qed
qed

lemma pseudo_moves_from_inside:
  assumes wf: "wf_grid (board b)" and rc: "(r, c) \<in> set all_squares"
  shows "pseudo_moves_from b col (r, c) =
           Inr (case sq (board b) r c of
                  None \<Rightarrow> []
                | Some p \<Rightarrow> if color p = col then piece_moves (board b) p r c else [])"
  using generate_pseudo_legal_moves_from_inside [OF wf rc [unfolded all_squares_iff]]
  by (simp add: pseudo_moves_from_def split: option.splits)

text \<open>
  C10. When a colour has no king on the board, \<^verbatim>\<open>king_position\<close> returns
  \<open>(-1, -1)\<close>, \<^verbatim>\<open>is_in_check\<close> is false, and every pseudo-legal move of that colour
  passes \<^verbatim>\<open>is_legal_move\<close>.
\<close>

theorem kingless_color_never_in_check:
  assumes wf: "wf_grid (board b)" and nk: "kingless b col"
  shows "king_position b col = (-1, -1) \<and> is_in_check b col = False
         \<and> (\<exists>ps. pseudo_legal_moves b col = Inr ps
               \<and> (\<forall>m \<in> set ps. is_legal_move b m col = Inr True))"
proof -
  have "\<exists>ys. pseudo_moves_from b col rc = Inr ys" if "rc \<in> set all_squares" for rc
    using pseudo_moves_from_inside [OF wf, of "fst rc" "snd rc" col] that by simp
  then obtain ps where ps: "pseudo_legal_moves b col = Inr ps"
    unfolding pseudo_legal_moves_def using collect_total [of all_squares "pseudo_moves_from b col"]
    by blast
  have "is_legal_move b m col = Inr True" if m: "m \<in> set ps" for m
  proof -
    from collect_member [OF ps [unfolded pseudo_legal_moves_def], of m] m
    obtain rc ys where rc: "rc \<in> set all_squares"
      and ys: "pseudo_moves_from b col rc = Inr ys" and my: "m \<in> set ys" by blast
    obtain r c where rc_eq: "rc = (r, c)" by (cases rc)
    from rc have ins: "inside r c" by (simp add: rc_eq all_squares_iff)
    from ys my pseudo_moves_from_inside [OF wf rc [unfolded rc_eq], of col]
    obtain p where p: "sq (board b) r c = Some p" and col: "color p = col"
      and mp: "m \<in> set (piece_moves (board b) p r c)"
      by (auto simp: rc_eq split: option.splits if_splits)
    from is_legal_move_generated [OF wf ins p col mp] obtain b2
      where b2: "make_move_no_checks (clone b) m = Inr b2"
        and lg: "is_legal_move b m col = Inr (\<not> is_in_check b2 col)" by blast
    from kingless_preserved [OF wf nk ins p mp b2 [unfolded clone_ident]]
    have "is_in_check b2 col = False" by (rule kingless_not_in_check)
    with lg show ?thesis by simp
  qed
  with ps kingless_king_position [OF nk] kingless_not_in_check [OF nk] show ?thesis by blast
qed

text \<open>The theorem at a concrete position.\<close>

theorem kingless_color_never_in_check_witness:
  "wf_grid (board kingless_board) \<and> kingless kingless_board White
   \<and> king_position kingless_board White = (-1, -1)
   \<and> is_in_check kingless_board White = False
   \<and> is_legal_move kingless_board ((6, 0), (5, 0)) White = Inr True"
proof -
  have wf: "wf_grid (board kingless_board)" by code_simp
  have nk: "kingless kingless_board White" by code_simp
  have mem: "(case pseudo_legal_moves kingless_board White of
                Inl e \<Rightarrow> False | Inr ps \<Rightarrow> ((6, 0), (5, 0)) \<in> set ps)"
    by code_simp
  from kingless_color_never_in_check [OF wf nk] mem show ?thesis
    using wf nk by (auto split: sum.splits)
qed

lemma pawn_attack_code:
  "pawn_attack b r c col \<longleftrightarrow>
     (let rr = (if col = White then r - 1 else r + 1) in
        (inside rr (c - 1) \<and> sq (board b) rr (c - 1) = Some (Piece col Pawn))
        \<or> (inside rr (c + 1) \<and> sq (board b) rr (c + 1) = Some (Piece col Pawn)))"
proof -
  have "is_piece po col Pawn \<longleftrightarrow> po = Some (Piece col Pawn)" for po
    by (cases po) (auto simp: is_piece_def piece.expand)
  then show ?thesis by (auto simp: pawn_attack_def Let_def)
qed

text \<open>
  C1. The pawn clause of \<^verbatim>\<open>is_square_attacked_by\<close> should report the pawns standing
  diagonally behind the target: a White pawn on \<open>(r+1, c-1)\<close> or \<open>(r+1, c+1)\<close>. The
  code looks on row \<open>r-1\<close> for White (lemma \<open>pawn_attack_code\<close>). With a White pawn on
  \<open>(5, 3)\<close> and the Black king on \<open>(4, 4)\<close> the clause, the whole attack test and the
  check test all answer \<open>False\<close>, although the move generator lets that pawn capture on
  \<open>(4, 4)\<close>.
\<close>

theorem pawn_attack_looks_ahead_of_target:
  "pawn_attack pawn_capture_board 4 4 White = False
   \<and> is_square_attacked_by pawn_capture_board 4 4 White = False
   \<and> is_in_check pawn_capture_board Black = False
   \<and> generate_pseudo_legal_moves_from pawn_capture_board 5 3
       = Inr [((5, 3), (4, 3)), ((5, 3), (4, 4))]"
  by code_simp

text \<open>
  C2. No move in \<^verbatim>\<open>generate_legal_moves\<close> should leave the mover's own king attacked. After
  1. e4 d5 2. Ke2 d4, every move taken from the engine's own legal moves, the list for White
  contains Ke3, \<open>((6, 4), (5, 4))\<close>. Applied to a clone it puts the king on \<open>(5, 4)\<close>, where
  the Black pawn on \<open>(4, 3)\<close> captures it: the move generator returns \<open>((4, 3), (5, 4))\<close>
  for that pawn. \<^verbatim>\<open>is_in_check\<close> answers \<open>False\<close> there, by the pawn clause of C1, which is
  why the filter lets the move through.
\<close>

theorem legal_move_exposes_king:
  "play new_board [((6, 4), (4, 4)), ((1, 3), (3, 3)), ((7, 4), (6, 4)), ((3, 3), (4, 3))]
     = Some exposed_king_board
   \<and> (\<exists>ms. generate_legal_moves exposed_king_board White = Inr ms \<and> ((6, 4), (5, 4)) \<in> set ms)
   \<and> (\<exists>b2. make_move_no_checks (clone exposed_king_board) ((6, 4), (5, 4)) = Inr b2
          \<and> king_position b2 White = (5, 4)
          \<and> sq (board b2) 4 3 = Some (Piece Black Pawn)
          \<and> generate_pseudo_legal_moves_from b2 4 3 = Inr [((4, 3), (5, 3)), ((4, 3), (5, 4))]
          \<and> is_in_check b2 White = False)"
proof -
  have reach: "play new_board [((6, 4), (4, 4)), ((1, 3), (3, 3)), ((7, 4), (6, 4)), ((3, 3), (4, 3))]
                 = Some exposed_king_board"
    by code_simp
  have legal: "(case generate_legal_moves exposed_king_board White of
                  Inl e \<Rightarrow> False | Inr ms \<Rightarrow> ((6, 4), (5, 4)) \<in> set ms)"
    by code_simp
  have after: "(case make_move_no_checks (clone exposed_king_board) ((6, 4), (5, 4)) of
                  Inl e \<Rightarrow> False
                | Inr b2 \<Rightarrow> king_position b2 White = (5, 4)
                    \<and> sq (board b2) 4 3 = Some (Piece Black Pawn)
                    \<and> generate_pseudo_legal_moves_from b2 4 3
                        = Inr [((4, 3), (5, 3)), ((4, 3), (5, 4))]
                    \<and> is_in_check b2 White = False)"
    by code_simp
  from legal have "\<exists>ms. generate_legal_moves exposed_king_board White = Inr ms
                     \<and> ((6, 4), (5, 4)) \<in> set ms"
    by (auto split: sum.splits)
  moreover from after
  have "\<exists>b2. make_move_no_checks (clone exposed_king_board) ((6, 4), (5, 4)) = Inr b2
          \<and> king_position b2 White = (5, 4)
          \<and> sq (board b2) 4 3 = Some (Piece Black Pawn)
          \<and> generate_pseudo_legal_moves_from b2 4 3 = Inr [((4, 3), (5, 3)), ((4, 3), (5, 4))]
          \<and> is_in_check b2 White = False"
    by (auto split: sum.splits)
  ultimately show ?thesis using reach by blast
qed

text \<open>
  C6. In the starting position White has exactly 20 pseudo-legal moves and exactly 20
  legal moves.
\<close>

theorem initial_position_twenty_moves:
  "(\<exists>ps. pseudo_legal_moves new_board White = Inr ps \<and> length ps = 20)
   \<and> (\<exists>ms. generate_legal_moves new_board White = Inr ms \<and> length ms = 20)"
proof -
  have "(case pseudo_legal_moves new_board White of Inl e \<Rightarrow> False | Inr ps \<Rightarrow> length ps = 20)"
    by code_simp
  moreover
  have "(case generate_legal_moves new_board White of Inl e \<Rightarrow> False | Inr ms \<Rightarrow> length ms = 20)"
    by code_simp
  ultimately show ?thesis by (auto split: sum.splits)
qed

text \<open>
  C7. With only the White king on a1 \<open>(7, 0)\<close>, the Black king on c2 \<open>(6, 2)\<close> and the
  Black queen on b3 \<open>(5, 1)\<close>, White has no legal move and is not in check.
\<close>

theorem stalemate_position:
  "board stalemate_board =
     [replicate 8 None, replicate 8 None, replicate 8 None, replicate 8 None, replicate 8 None,
      [None, Some (Piece Black Queen), None, None, None, None, None, None],
      [None, None, Some (Piece Black King), None, None, None, None, None],
      [Some (Piece White King), None, None, None, None, None, None, None]]
   \<and> to_move stalemate_board = White
   \<and> generate_legal_moves stalemate_board White = Inr []
   \<and> is_in_check stalemate_board White = False"
proof -
  have "board stalemate_board =
     [replicate 8 None, replicate 8 None, replicate 8 None, replicate 8 None, replicate 8 None,
      [None, Some (Piece Black Queen), None, None, None, None, None, None],
      [None, None, Some (Piece Black King), None, None, None, None, None],
      [Some (Piece White King), None, None, None, None, None, None, None]]"
    by code_simp
  moreover have "to_move stalemate_board = White" by (simp add: stalemate_board_def)
  moreover have "generate_legal_moves stalemate_board White = Inr []" by code_simp
  moreover have "is_in_check stalemate_board White = False" by code_simp
  ultimately show ?thesis by blast
qed

subsection \<open>Properties of the object store\<close>

lemma agree_refl: "agree L s s"
  by (simp add: agree_def)

lemma agree_trans: "agree L s s1 \<Longrightarrow> agree L s1 s2 \<Longrightarrow> agree L s s2"
  by (simp add: agree_def)

lemma agree_mono: "agree L s s' \<Longrightarrow> K \<le> L \<Longrightarrow> agree K s s'"
  by (simp add: agree_def)

lemma py_get_mem: "py_get xs i = Inr x \<Longrightarrow> x \<in> set xs"
  by (auto simp: py_get_def split: sum.splits dest: py_norm_less)

lemma new_piece_props:
  assumes "new_piece s p = (s', a)"
  shows "agree (lim s) s s'" and "lim s' = Suc (lim s)" and "a = lim s" and "piece_at s' a = p"
  using assms by (auto simp: new_piece_def agree_def)

lemma new_row_props:
  assumes "new_row s cells = (s', a)"
  shows "agree (lim s) s s'" and "lim s' = Suc (lim s)" and "a = lim s" and "row_at s' a = cells"
    and "piece_at s' = piece_at s"
  using assms by (auto simp: new_row_def agree_def)

lemma new_rows_props:
  assumes "new_rows s rrefs = (s', a)"
  shows "agree (lim s) s s'" and "lim s' = Suc (lim s)" and "a = lim s" and "rows_at s' a = rrefs"
    and "piece_at s' = piece_at s" and "row_at s' = row_at s" and "board_at s' = board_at s"
  using assms by (auto simp: new_rows_def agree_def)

text \<open>The references held by the cells of a row.\<close>

lemma clone_cell_props:
  assumes "clone_cell s cl = (s', cl')" and "\<And>a. cl = Some a \<Longrightarrow> a < lim s"
  shows "agree (lim s) s s'" and "lim s \<le> lim s'"
    and "map_option (piece_at s') cl' = map_option (piece_at s) cl"
    and "\<And>a'. cl' = Some a' \<Longrightarrow> lim s \<le> a' \<and> a' < lim s'"
proof -
  show "agree (lim s) s s'" using assms(1)
    by (auto simp: clone_cell_def agree_refl split: option.splits prod.splits dest: new_piece_props(1))
  show "lim s \<le> lim s'" using assms(1)
    by (auto simp: clone_cell_def split: option.splits prod.splits dest: new_piece_props(2))
  show "map_option (piece_at s') cl' = map_option (piece_at s) cl"
  proof (cases cl)
    case None
    with assms(1) show ?thesis by (simp add: clone_cell_def)
  next
    case (Some a)
    with assms(1) obtain a' where np: "new_piece s (Piece (color (piece_at s a)) (kind (piece_at s a))) = (s', a')"
      and cl': "cl' = Some a'"
      by (auto simp: clone_cell_def split: prod.splits)
    from new_piece_props(4) [OF np] show ?thesis using Some cl' by simp
  qed
  show "lim s \<le> a' \<and> a' < lim s'" if "cl' = Some a'" for a'
    using assms(1) that
    by (auto simp: clone_cell_def new_piece_def split: option.splits)
qed

lemma clone_cells_props:
  assumes "clone_cells s cls = (s', cls')" and "\<And>a. Some a \<in> set cls \<Longrightarrow> a < lim s"
  shows "agree (lim s) s s' \<and> lim s \<le> lim s'
         \<and> map (map_option (piece_at s')) cls' = map (map_option (piece_at s)) cls
         \<and> (\<forall>a'. Some a' \<in> set cls' \<longrightarrow> lim s \<le> a' \<and> a' < lim s')"
  using assms
proof (induction cls arbitrary: s s' cls')
  case Nil
  then show ?case by (simp add: agree_refl)
next
  case (Cons cl cls)
  from Cons.prems(1) obtain s1 cl1 cls1 where c1: "clone_cell s cl = (s1, cl1)"
    and cr: "clone_cells s1 cls = (s', cls1)" and out: "cls' = cl1 # cls1"
    by (auto split: prod.splits)
  have lt: "\<And>a. cl = Some a \<Longrightarrow> a < lim s" using Cons.prems(2) by simp
  note p1 = clone_cell_props [OF c1 lt]
  have lt1: "\<And>a. Some a \<in> set cls \<Longrightarrow> a < lim s1" using Cons.prems(2) p1(2) by fastforce
  from Cons.IH [OF cr lt1] have ag: "agree (lim s1) s1 s'" and le: "lim s1 \<le> lim s'"
    and eq: "map (map_option (piece_at s')) cls1 = map (map_option (piece_at s1)) cls"
    and fr: "\<forall>a'. Some a' \<in> set cls1 \<longrightarrow> lim s1 \<le> a' \<and> a' < lim s'"
    by auto
  have a0: "agree (lim s) s s'"
    by (rule agree_trans [OF p1(1) agree_mono [OF ag p1(2)]])
  have e1: "map_option (piece_at s') cl1 = map_option (piece_at s) cl"
  proof -
    have "map_option (piece_at s') cl1 = map_option (piece_at s1) cl1"
      using p1(4) ag by (cases cl1) (auto simp: agree_def)
    with p1(3) show ?thesis by simp
  qed
  have e2: "map (map_option (piece_at s1)) cls = map (map_option (piece_at s)) cls"
  proof (rule map_cong [OF refl])
    fix x assume xin: "x \<in> set cls"
    show "map_option (piece_at s1) x = map_option (piece_at s) x"
    proof (cases x)
      case None
      then show ?thesis by simp
    next
      case (Some a)
      with xin Cons.prems(2) have "a < lim s" by simp
      with p1(1) show ?thesis by (simp add: agree_def Some)
    qed
  qed
  have f: "\<forall>a'. Some a' \<in> set cls' \<longrightarrow> lim s \<le> a' \<and> a' < lim s'"
    using p1(2,4) fr le unfolding out by fastforce
  show ?case using a0 p1(2) le e1 e2 eq f by (simp add: out)
qed

lemma piece_refs_iff:
  "a \<in> set (piece_refs s b) \<longleftrightarrow> (\<exists>r \<in> set (rows_of s b). Some a \<in> set (row_at s r))"
  by (auto simp: piece_refs_def split: option.splits)

lemma valid_iff:
  "valid s b \<longleftrightarrow>
     b < lim s \<and> board_ref (board_at s b) < lim s
     \<and> (\<forall>r \<in> set (rows_of s b). r < lim s \<and> (\<forall>a. Some a \<in> set (row_at s r) \<longrightarrow> a < lim s))"
  by (auto simp: valid_def owned_def list_all_iff piece_refs_iff)

lemma agree_row:
  assumes "agree L s s'" and "r < L" and "\<And>a. Some a \<in> set (row_at s r) \<Longrightarrow> a < L"
  shows "row_at s' r = row_at s r" and "row_of s' r = row_of s r"
proof -
  show eq: "row_at s' r = row_at s r" using assms(1,2) by (simp add: agree_def)
  have "map (map_option (piece_at s')) (row_at s r) = map (map_option (piece_at s)) (row_at s r)"
  proof (rule map_cong [OF refl])
    fix x assume xin: "x \<in> set (row_at s r)"
    show "map_option (piece_at s') x = map_option (piece_at s) x"
    proof (cases x)
      case None
      then show ?thesis by simp
    next
      case (Some a)
      with xin assms(3) have "a < L" by simp
      with assms(1) show ?thesis by (simp add: agree_def Some)
    qed
  qed
  then show "row_of s' r = row_of s r" by (simp add: row_of_def eq)
qed

lemma clone_row_props:
  assumes "clone_row s rref = (s', rref')" and "\<And>a. Some a \<in> set (row_at s rref) \<Longrightarrow> a < lim s"
  shows "agree (lim s) s s'" and "lim s \<le> rref'" and "rref' < lim s'"
    and "row_of s' rref' = row_of s rref"
    and "\<And>a'. Some a' \<in> set (row_at s' rref') \<Longrightarrow> lim s \<le> a' \<and> a' < lim s'"
proof -
  from assms(1) obtain s1 cells where cc: "clone_cells s (row_at s rref) = (s1, cells)"
    and nr: "new_row s1 cells = (s', rref')"
    by (auto simp: clone_row_def split: prod.splits)
  from clone_cells_props [OF cc assms(2)]
  have ag: "agree (lim s) s s1" and le: "lim s \<le> lim s1"
    and eq: "map (map_option (piece_at s1)) cells = map (map_option (piece_at s)) (row_at s rref)"
    and fr: "\<forall>a'. Some a' \<in> set cells \<longrightarrow> lim s \<le> a' \<and> a' < lim s1"
    by auto
  note n = new_row_props [OF nr]
  show "agree (lim s) s s'" by (rule agree_trans [OF ag agree_mono [OF n(1) le]])
  show "lim s \<le> rref'" using n(3) le by simp
  show "rref' < lim s'" using n(2,3) by simp
  show "row_of s' rref' = row_of s rref" using eq n(4,5) by (simp add: row_of_def)
  show "lim s \<le> a' \<and> a' < lim s'" if "Some a' \<in> set (row_at s' rref')" for a'
    using that fr n(2,4) by fastforce
qed

lemma clone_rows_props:
  assumes "clone_rows s rrefs = (s', rrefs')"
    and "\<And>r a. r \<in> set rrefs \<Longrightarrow> Some a \<in> set (row_at s r) \<Longrightarrow> a < lim s"
    and "\<And>r. r \<in> set rrefs \<Longrightarrow> r < lim s"
  shows "agree (lim s) s s' \<and> lim s \<le> lim s'
         \<and> map (row_of s') rrefs' = map (row_of s) rrefs
         \<and> (\<forall>r' \<in> set rrefs'. lim s \<le> r' \<and> r' < lim s'
               \<and> (\<forall>a'. Some a' \<in> set (row_at s' r') \<longrightarrow> lim s \<le> a' \<and> a' < lim s'))"
  using assms
proof (induction rrefs arbitrary: s s' rrefs')
  case Nil
  then show ?case by (simp add: agree_refl)
next
  case (Cons r rs)
  from Cons.prems(1) obtain s1 r1 rs1 where c1: "clone_row s r = (s1, r1)"
    and cr: "clone_rows s1 rs = (s', rs1)" and out: "rrefs' = r1 # rs1"
    by (auto split: prod.splits)
  have lt: "\<And>a. Some a \<in> set (row_at s r) \<Longrightarrow> a < lim s"
    using Cons.prems(2) [of r] by simp
  note p1 = clone_row_props [OF c1 lt]
  have le1: "lim s \<le> lim s1" using p1(2,3) by simp
  have same: "row_at s1 x = row_at s x" "row_of s1 x = row_of s x" if "x \<in> set rs" for x
  proof -
    have xl: "x < lim s" using Cons.prems(3) [of x] that by simp
    have xa: "\<And>a. Some a \<in> set (row_at s x) \<Longrightarrow> a < lim s"
      using Cons.prems(2) [of x] that by simp
    show "row_at s1 x = row_at s x" "row_of s1 x = row_of s x"
      using agree_row [OF p1(1) xl xa] by simp_all
  qed
  have pre2: "a < lim s1" if "x \<in> set rs" "Some a \<in> set (row_at s1 x)" for x a
  proof -
    have "a < lim s" using Cons.prems(2) [of x a] that same(1) [of x] by simp
    with le1 show ?thesis by simp
  qed
  have pre3: "x < lim s1" if "x \<in> set rs" for x
    using Cons.prems(3) [of x] le1 that by simp
  from Cons.IH [OF cr pre2 pre3] have ag: "agree (lim s1) s1 s'" and le: "lim s1 \<le> lim s'"
    and eq: "map (row_of s') rs1 = map (row_of s1) rs"
    and fr: "\<forall>r' \<in> set rs1. lim s1 \<le> r' \<and> r' < lim s'
               \<and> (\<forall>a'. Some a' \<in> set (row_at s' r') \<longrightarrow> lim s1 \<le> a' \<and> a' < lim s')"
    by auto
  have a0: "agree (lim s) s s'"
    by (rule agree_trans [OF p1(1) agree_mono [OF ag le1]])
  have keep: "row_at s' r1 = row_at s1 r1" "row_of s' r1 = row_of s1 r1"
    using agree_row [OF ag p1(3)] p1(5) by simp_all
  have e1: "row_of s' r1 = row_of s r" using keep(2) p1(4) by simp
  have e2: "map (row_of s1) rs = map (row_of s) rs" using same(2) by simp
  have f1: "lim s \<le> r1 \<and> r1 < lim s'
            \<and> (\<forall>a'. Some a' \<in> set (row_at s' r1) \<longrightarrow> lim s \<le> a' \<and> a' < lim s')"
    using p1(2,3,5) le keep(1) by fastforce
  have f2: "\<forall>r' \<in> set rs1. lim s \<le> r' \<and> r' < lim s'
               \<and> (\<forall>a'. Some a' \<in> set (row_at s' r') \<longrightarrow> lim s \<le> a' \<and> a' < lim s')"
    using fr le1 by fastforce
  show ?case using a0 le1 le e1 e2 eq f1 f2 by (simp add: out)
qed

lemma agree_board_of:
  assumes ag: "agree L s s'" and own: "\<And>a. a \<in> set (owned s b) \<Longrightarrow> a < L"
  shows "board_of s' b = board_of s b" and "owned s' b = owned s b"
proof -
  have b: "board_at s' b = board_at s b" using ag own [of b] by (simp add: agree_def owned_def)
  have "rows_at s' (board_ref (board_at s b)) = rows_at s (board_ref (board_at s b))"
    using ag own [of "board_ref (board_at s b)"] by (simp add: agree_def owned_def)
  with b have rows: "rows_of s' b = rows_of s b" by (simp add: rows_of_def)
  have row: "row_at s' r = row_at s r" "row_of s' r = row_of s r" if "r \<in> set (rows_of s b)" for r
  proof -
    have rl: "r < L" using own [of r] that by (simp add: owned_def)
    have ra: "\<And>a. Some a \<in> set (row_at s r) \<Longrightarrow> a < L"
      using own that by (auto simp: owned_def piece_refs_iff)
    show "row_at s' r = row_at s r" "row_of s' r = row_of s r"
      using agree_row [OF ag rl ra] by simp_all
  qed
  have "grid_of s' b = grid_of s b" using rows row(2) by (simp add: grid_of_def)
  with b show "board_of s' b = board_of s b" by (simp add: board_of_def)
  have "piece_refs s' b = piece_refs s b"
    unfolding piece_refs_def rows
    by (rule arg_cong [where f = concat], rule map_cong [OF refl]) (simp add: row(1))
  with b rows show "owned s' b = owned s b" by (simp add: owned_def)
qed

lemma clone_h_props:
  assumes v: "valid s self" and cl: "clone_h s self = (s', b')"
  shows "agree (lim s) s s'"
    and "board_of s' b' = board_of s self"
    and "\<And>a. a \<in> set (owned s' b') \<Longrightarrow> lim s \<le> a \<and> a < lim s'"
proof -
  define s0 where "s0 = s\<lparr>lim := Suc (lim s)\<rparr>"
  have ag0: "agree (lim s) s s0" by (simp add: s0_def agree_def)
  have rows0: "rows_of s0 self = rows_of s self" by (simp add: s0_def rows_of_def)
  obtain s1 rrefs where cr: "clone_rows s0 (rows_of s0 self) = (s1, rrefs)"
    by (cases "clone_rows s0 (rows_of s0 self)")
  obtain s2 gref where nr: "new_rows s1 rrefs = (s2, gref)"
    by (cases "new_rows s1 rrefs")
  have "clone_h s self =
          (s2\<lparr>board_at := (board_at s2)
                         (lim s := \<lparr>board_ref = gref,
                                to_move_of = to_move_of (board_at s2 self),
                                halfmove_clock_of = halfmove_clock_of (board_at s2 self),
                                fullmove_number_of = fullmove_number_of (board_at s2 self)\<rparr>)\<rparr>,
           lim s)"
    unfolding clone_h_def Let_def s0_def [symmetric] by (simp only: cr nr prod.case)
  with cl have s': "s' = s2\<lparr>board_at := (board_at s2)
                         (lim s := \<lparr>board_ref = gref,
                                to_move_of = to_move_of (board_at s2 self),
                                halfmove_clock_of = halfmove_clock_of (board_at s2 self),
                                fullmove_number_of = fullmove_number_of (board_at s2 self)\<rparr>)\<rparr>"
    and b': "b' = lim s"
    by auto
  from v have self_lt: "self < lim s"
    and rows_lt: "\<And>r. r \<in> set (rows_of s self) \<Longrightarrow> r < lim s"
    and cells_lt: "\<And>r a. r \<in> set (rows_of s self) \<Longrightarrow> Some a \<in> set (row_at s r) \<Longrightarrow> a < lim s"
    by (auto simp: valid_iff)
  have pre2: "a < lim s0" if "r \<in> set (rows_of s0 self)" "Some a \<in> set (row_at s0 r)" for r a
    using cells_lt [of r a] that by (simp add: s0_def rows_of_def)
  have pre3: "r < lim s0" if "r \<in> set (rows_of s0 self)" for r
    using rows_lt [of r] that by (simp add: s0_def rows_of_def)
  from clone_rows_props [OF cr pre2 pre3]
  have ag1: "agree (lim s0) s0 s1" and le1: "lim s0 \<le> lim s1"
    and eq: "map (row_of s1) rrefs = map (row_of s0) (rows_of s0 self)"
    and fr: "\<forall>r' \<in> set rrefs. lim s0 \<le> r' \<and> r' < lim s1
               \<and> (\<forall>a'. Some a' \<in> set (row_at s1 r') \<longrightarrow> lim s0 \<le> a' \<and> a' < lim s1)"
    by auto
  note n = new_rows_props [OF nr]
  have l0: "lim s0 = Suc (lim s)" by (simp add: s0_def)
  have ag2: "agree (lim s) s s2"
    using ag0 ag1 n(1) le1 l0 by (simp add: agree_def)
  show ag: "agree (lim s) s s'" using ag2 by (simp add: s' agree_def)
  have lim': "lim s' = Suc (lim s1)" using n(2) by (simp add: s')
  have rows': "rows_of s' b' = rrefs" using n(3,4) le1 l0 by (simp add: s' b' rows_of_def)
  have pa: "piece_at s' = piece_at s1" using n(5) by (simp add: s')
  have ra: "row_at s' = row_at s1" using n(6) by (simp add: s')
  have row_s': "row_of s' = row_of s1" "row_at s' = row_at s1"
    by (rule ext, simp add: row_of_def pa ra) (rule ra)
  have "row_of s0 = row_of s" by (rule ext) (simp add: s0_def row_of_def)
  with eq rows0 rows' row_s' have grid: "grid_of s' b' = grid_of s self"
    by (simp add: grid_of_def)
  have "board_at s2 self = board_at s self" using ag2 self_lt by (simp add: agree_def)
  then show "board_of s' b' = board_of s self" using grid by (simp add: board_of_def s' b')
  show "lim s \<le> a \<and> a < lim s'" if "a \<in> set (owned s' b')" for a
  proof -
    have gref': "board_ref (board_at s' b') = gref" by (simp add: s' b')
    from that consider "a = b'" | "a = gref" | "a \<in> set rrefs"
      | r where "r \<in> set rrefs" "Some a \<in> set (row_at s1 r)"
      by (auto simp: owned_def gref' rows' piece_refs_iff row_s')
    then show ?thesis
    proof cases
      case 1
      then show ?thesis using b' lim' le1 l0 by simp
    next
      case 2
      then show ?thesis using n(3) lim' le1 l0 by simp
    next
      case 3
      with fr show ?thesis using lim' l0 by fastforce
    next
      case 4
      with fr show ?thesis using lim' l0 by fastforce
    qed
  qed
qed

text \<open>Writes through a board object touch only its own rows and newly allocated addresses.\<close>

lemma set_cell_h_frame:
  assumes "set_cell_h s b r c v = (s', e)" and "\<And>x. x \<in> set (rows_of s b) \<Longrightarrow> L \<le> x"
  shows "agree L s s'" and "lim s' = lim s" and "rows_of s' b = rows_of s b"
proof -
  show "agree L s s'"
  proof (cases "py_get (rows_of s b) r")
    case (Inl x)
    with assms(1) show ?thesis by (simp add: set_cell_h_def agree_refl)
  next
    case (Inr rref)
    from py_get_mem [OF Inr] assms(2) have "L \<le> rref" by simp
    with assms(1) Inr show ?thesis
      by (auto simp: set_cell_h_def agree_def split: sum.splits)
  qed
  show "lim s' = lim s" using assms(1) by (auto simp: set_cell_h_def split: sum.splits)
  show "rows_of s' b = rows_of s b"
    using assms(1) by (auto simp: set_cell_h_def rows_of_def split: sum.splits)
qed

lemma make_move_no_checks_h_frame:
  assumes mm: "make_move_no_checks_h s b m = (s', e)"
    and rows: "\<And>x. x \<in> set (rows_of s b) \<Longrightarrow> L \<le> x" and lim: "L \<le> lim s"
  shows "agree L s s'"
proof -
  obtain r1 c1 r2 c2 where m_eq: "m = ((r1, c1), (r2, c2))" by (cases m) auto
  show ?thesis
  proof (cases "cell_h s b r1 c1")
    case (Inl x)
    with mm show ?thesis by (simp add: make_move_no_checks_h_def m_eq agree_refl)
  next
    case (Inr p)
    obtain s1 e1 where sc1: "set_cell_h s b r1 c1 None = (s1, e1)" by (cases "set_cell_h s b r1 c1 None")
    note f1 = set_cell_h_frame [OF sc1 rows]
    have rows1: "\<And>x. x \<in> set (rows_of s1 b) \<Longrightarrow> L \<le> x" using rows f1(3) by simp
    show ?thesis
    proof (cases e1)
      case (Some x)
      with mm Inr sc1 f1(1) show ?thesis by (simp add: make_move_no_checks_h_def m_eq)
    next
      case None
      show ?thesis
      proof (cases p)
        case None
        with mm Inr sc1 \<open>e1 = None\<close> f1(1) show ?thesis
          by (simp add: make_move_no_checks_h_def m_eq)
      next
        case (Some a)
        show ?thesis
        proof (cases "kind (piece_at s1 a) = Pawn \<and> (r2 = 0 \<or> r2 = 7)")
          case False
          with mm Inr sc1 \<open>e1 = None\<close> Some
          have "set_cell_h s1 b r2 c2 (Some a) = (s', e)"
            by (simp add: make_move_no_checks_h_def m_eq)
          from set_cell_h_frame(1) [OF this rows1] f1(1) show ?thesis by (rule agree_trans [rotated])
        next
          case True
          obtain s2 q where np: "new_piece s1 (Piece (color (piece_at s1 a)) Queen) = (s2, q)"
            by (cases "new_piece s1 (Piece (color (piece_at s1 a)) Queen)")
          with mm Inr sc1 \<open>e1 = None\<close> Some True
          have sc2: "set_cell_h s2 b r2 c2 (Some q) = (s', e)"
            by (simp add: make_move_no_checks_h_def m_eq)
          have a12: "agree L s1 s2"
            using new_piece_props(1) [OF np] lim f1(2) by (simp add: agree_def)
          have "rows_of s2 b = rows_of s1 b" using np by (auto simp: new_piece_def rows_of_def)
          with rows1 have rows2: "\<And>x. x \<in> set (rows_of s2 b) \<Longrightarrow> L \<le> x" by simp
          from set_cell_h_frame(1) [OF sc2 rows2] have "agree L s2 s'" .
          with f1(1) a12 show ?thesis by (blast intro: agree_trans)
        qed
      qed
    qed
  qed
qed

lemma set_cell_h_rows:
  assumes "set_cell_h s b r c v = (s', e)"
  shows "rows_of s' x = rows_of s x" and "lim s' = lim s"
  using assms by (auto simp: set_cell_h_def rows_of_def split: sum.splits)

lemma make_move_no_checks_h_rows:
  assumes mm: "make_move_no_checks_h s b m = (s', e)"
  shows "rows_of s' x = rows_of s x" and "lim s \<le> lim s'"
proof -
  obtain r1 c1 r2 c2 where m_eq: "m = ((r1, c1), (r2, c2))" by (cases m) auto
  obtain s1 e1 where sc1: "set_cell_h s b r1 c1 None = (s1, e1)"
    by (cases "set_cell_h s b r1 c1 None")
  note f1 = set_cell_h_rows [OF sc1]
  have "rows_of s' x = rows_of s x \<and> lim s \<le> lim s'"
  proof (cases "cell_h s b r1 c1")
    case (Inl err)
    with mm show ?thesis by (simp add: make_move_no_checks_h_def m_eq)
  next
    case (Inr p)
    show ?thesis
    proof (cases "e1 = None \<and> p \<noteq> None")
      case False
      with mm Inr sc1 f1 show ?thesis
        by (auto simp: make_move_no_checks_h_def m_eq split: option.splits)
    next
      case True
      then obtain a where p: "p = Some a" and e1: "e1 = None" by auto
      show ?thesis
      proof (cases "kind (piece_at s1 a) = Pawn \<and> (r2 = 0 \<or> r2 = 7)")
        case False
        with mm Inr sc1 e1 p have "set_cell_h s1 b r2 c2 (Some a) = (s', e)"
          by (simp add: make_move_no_checks_h_def m_eq)
        from set_cell_h_rows [OF this] f1 show ?thesis by simp
      next
        case True
        obtain s2 q where np: "new_piece s1 (Piece (color (piece_at s1 a)) Queen) = (s2, q)"
          by (cases "new_piece s1 (Piece (color (piece_at s1 a)) Queen)")
        with mm Inr sc1 e1 p True have "set_cell_h s2 b r2 c2 (Some q) = (s', e)"
          by (simp add: make_move_no_checks_h_def m_eq)
        from set_cell_h_rows [OF this] f1 np show ?thesis
          by (auto simp: new_piece_def rows_of_def)
      qed
    qed
  qed
  then show "rows_of s' x = rows_of s x" and "lim s \<le> lim s'" by simp_all
qed

lemma make_moves_h_frame:
  "(\<And>x. x \<in> set (rows_of s b) \<Longrightarrow> L \<le> x) \<Longrightarrow> L \<le> lim s \<Longrightarrow> agree L s (make_moves_h s b ms)"
proof (induction ms arbitrary: s)
  case Nil
  show ?case by (simp add: agree_refl)
next
  case (Cons m ms)
  obtain s1 e where mm: "make_move_no_checks_h s b m = (s1, e)"
    by (cases "make_move_no_checks_h s b m")
  have a1: "agree L s s1" by (rule make_move_no_checks_h_frame [OF mm Cons.prems])
  have rows1: "\<And>x. x \<in> set (rows_of s1 b) \<Longrightarrow> L \<le> x"
    using make_move_no_checks_h_rows(1) [OF mm] Cons.prems(1) by simp
  have lim1: "L \<le> lim s1" using make_move_no_checks_h_rows(2) [OF mm] Cons.prems(2) by simp
  from Cons.IH [OF rows1 lim1] a1 show ?case by (simp add: mm agree_trans)
qed

lemma py_get_map: "py_get (map f xs) i = map_sum id f (py_get xs i)"
  by (auto simp: py_get_def split: sum.splits dest: py_norm_less)

lemma cell_board_of:
  "cell (board (board_of s b)) r c = map_sum id (map_option (piece_at s)) (cell_h s b r c)"
  by (auto simp: cell_def cell_h_def board_of_def grid_of_def row_of_def py_get_map
           split: sum.splits)

lemma clone_then_moves_frame:
  assumes "valid s b" and "clone_h s b = (s', b')"
  shows "board_of (make_moves_h s' b' ms) b = board_of s b"
proof -
  note c = clone_h_props [OF assms]
  have own: "\<And>a. a \<in> set (owned s b) \<Longrightarrow> a < lim s"
    using assms(1) by (simp add: valid_def list_all_iff)
  have rows: "\<And>x. x \<in> set (rows_of s' b') \<Longrightarrow> lim s \<le> x"
    using c(3) by (simp add: owned_def)
  have "lim s \<le> lim s'" using c(3) [of b'] by (simp add: owned_def)
  from make_moves_h_frame [OF rows this]
  have "agree (lim s) s (make_moves_h s' b' ms)" using c(1) by (blast intro: agree_trans)
  from agree_board_of(1) [OF this own] show ?thesis .
qed

text \<open>
  C9. \<^verbatim>\<open>clone\<close> returns a new board object that stands for the same board value as its
  source: the same piece colour and kind on every square, the same side to move and
  counters. It owns no address of the source, and whatever moves are then applied to the
  clone, the source stands for the same value as before.
\<close>

theorem clone_is_independent:
  assumes "valid s b" and "clone_h s b = (s', b')"
  shows "board_of s' b' = board_of s b
         \<and> board_of s' b' = clone (board_of s b)
         \<and> board_of s' b = board_of s b
         \<and> set (owned s' b') \<inter> set (owned s' b) = {}
         \<and> (\<forall>ms. board_of (make_moves_h s' b' ms) b = board_of s b)"
proof -
  note c = clone_h_props [OF assms]
  have own: "\<And>a. a \<in> set (owned s b) \<Longrightarrow> a < lim s"
    using assms(1) by (simp add: valid_def list_all_iff)
  note k = agree_board_of [OF c(1) own]
  have disj: "set (owned s' b') \<inter> set (owned s' b) = {}"
    using c(3) own k(2) by fastforce
  have "board_of (make_moves_h s' b' ms) b = board_of s b" for ms
    by (rule clone_then_moves_frame [OF assms])
  with c(2) k(1) disj show ?thesis by (simp add: clone_ident)
qed

text \<open>The theorem on the concrete store, with the promotion c7 to c8 applied to the clone.\<close>

theorem clone_is_independent_witness:
  "valid promotion_store 0
   \<and> board_of promotion_store 0 = promotion_board
   \<and> board_of (fst (clone_h promotion_store 0)) (snd (clone_h promotion_store 0))
       = promotion_board
   \<and> board_of (make_moves_h (fst (clone_h promotion_store 0)) (snd (clone_h promotion_store 0))
                 [((1, 2), (0, 2))]) 0
       = promotion_board"
proof -
  have v: "valid promotion_store 0" by code_simp
  have nb: "board_of promotion_store 0 = promotion_board" by code_simp
  have cl: "clone_h promotion_store 0
              = (fst (clone_h promotion_store 0), snd (clone_h promotion_store 0))"
    by simp
  note th = clone_is_independent [OF v cl, unfolded nb]
  from th v nb show ?thesis by blast
qed

text \<open>
  C5. \<^verbatim>\<open>is_legal_move\<close> answers \<open>False\<close> when the source square is empty or holds a piece
  of the other colour; it raises nothing and returns the store as it found it, so the
  board is unchanged. The function on board values gives the same answer.
\<close>

theorem is_legal_move_rejects:
  assumes "cell_h s b r1 c1 = Inr None
           \<or> (\<exists>a. cell_h s b r1 c1 = Inr (Some a) \<and> color (piece_at s a) \<noteq> col)"
  shows "is_legal_move_h s b ((r1, c1), (r2, c2)) col = (s, Inr False)
         \<and> is_legal_move (board_of s b) ((r1, c1), (r2, c2)) col = Inr False"
  using assms cell_board_of [of s b r1 c1]
  by (auto simp: is_legal_move_h_def is_legal_move_def)

text \<open>The theorem on the concrete store: d5 is empty.\<close>

theorem is_legal_move_rejects_witness:
  "cell_h promotion_store 0 3 3 = Inr None
   \<and> is_legal_move_h promotion_store 0 ((3, 3), (2, 3)) White = (promotion_store, Inr False)
   \<and> is_legal_move (board_of promotion_store 0) ((3, 3), (2, 3)) White = Inr False"
proof -
  have src: "cell_h promotion_store 0 3 3 = Inr None" by code_simp
  from is_legal_move_rejects [of promotion_store 0 3 3 White 2 3] src show ?thesis by blast
qed

text \<open>In every case the board object \<^verbatim>\<open>is_legal_move\<close> is called on stands for the same value afterwards.\<close>

lemma is_legal_move_h_frame:
  assumes v: "valid s b"
  shows "board_of (fst (is_legal_move_h s b m col)) b = board_of s b"
proof -
  obtain r1 c1 r2 c2 where m_eq: "m = ((r1, c1), (r2, c2))" by (cases m) auto
  obtain s1 b2 where cl: "clone_h s b = (s1, b2)" by (cases "clone_h s b")
  obtain s2 e where mm: "make_move_no_checks_h s1 b2 m = (s2, e)"
    by (cases "make_move_no_checks_h s1 b2 m")
  have s2: "make_moves_h s1 b2 [m] = s2" by (simp add: mm)
  have "board_of s2 b = board_of s b"
    using clone_then_moves_frame [OF v cl, of "[m]"] by (simp only: s2)
  moreover have "board_of s1 b = board_of s b"
    using clone_then_moves_frame [OF v cl, of "[]"] by simp
  ultimately show ?thesis
    using cl mm
    by (auto simp: is_legal_move_h_def m_eq split: sum.splits option.splits)
qed

subsection \<open>The store and the board values\<close>

lemma py_set_map: "py_set (map f xs) i (f v) = map_sum id (map f) (py_set xs i v)"
  by (auto simp: py_set_def map_update split: sum.splits)

lemma py_get_nth: "py_get xs i = Inr x \<Longrightarrow> \<exists>j < length xs. py_norm (length xs) i = Inr j \<and> x = xs ! j"
  by (auto simp: py_get_def split: sum.splits dest: py_norm_less)

lemma set_cell_h_refines:
  assumes d: "distinct (rows_of s b)" and sc: "set_cell_h s b r c v = (s', e)"
  shows "piece_at s' = piece_at s"
    and "e = None \<Longrightarrow> set_cell (grid_of s b) r c (map_option (piece_at s) v) = Inr (grid_of s' b)"
    and "e = Some err \<Longrightarrow> set_cell (grid_of s b) r c (map_option (piece_at s) v) = Inl err"
proof -
  show "piece_at s' = piece_at s" using sc by (auto simp: set_cell_h_def split: sum.splits)
  show "set_cell (grid_of s b) r c (map_option (piece_at s) v) = Inl err" if "e = Some err"
    using sc that
    by (auto simp: set_cell_h_def set_cell_def grid_of_def row_of_def py_get_map py_set_map
             split: sum.splits)
  show "set_cell (grid_of s b) r c (map_option (piece_at s) v) = Inr (grid_of s' b)" if "e = None"
  proof -
    from sc that obtain rref cells where g: "py_get (rows_of s b) r = Inr rref"
      and st: "py_set (row_at s rref) c v = Inr cells"
      and s': "s' = s\<lparr>row_at := (row_at s)(rref := cells)\<rparr>"
      by (auto simp: set_cell_h_def split: sum.splits)
    from py_get_nth [OF g] obtain j where jl: "j < length (rows_of s b)"
      and jn: "py_norm (length (rows_of s b)) r = Inr j" and rj: "rref = rows_of s b ! j"
      by blast
    have rows': "rows_of s' b = rows_of s b" by (simp add: s' rows_of_def)
    have row': "row_of s' x = (if x = rref then map (map_option (piece_at s)) cells else row_of s x)"
      for x by (simp add: s' row_of_def)
    have "grid_of s' b = (grid_of s b)[j := map (map_option (piece_at s)) cells]"
    proof (rule nth_equalityI)
      show "length (grid_of s' b) = length ((grid_of s b)[j := map (map_option (piece_at s)) cells])"
        by (simp add: grid_of_def rows')
      fix i assume "i < length (grid_of s' b)"
      then have il: "i < length (rows_of s b)" by (simp add: grid_of_def rows')
      show "grid_of s' b ! i = (grid_of s b)[j := map (map_option (piece_at s)) cells] ! i"
      proof (cases "i = j")
        case True
        then show ?thesis using jl rj by (simp add: grid_of_def rows' row')
      next
        case False
        with d il jl rj have "rows_of s b ! i \<noteq> rref" by (simp add: nth_eq_iff_index_eq)
        then show ?thesis using il False by (simp add: grid_of_def rows' row')
      qed
    qed
    moreover have "set_cell (grid_of s b) r c (map_option (piece_at s) v)
                     = Inr ((grid_of s b)[j := map (map_option (piece_at s)) cells])"
    proof -
      from st obtain k where kn: "py_norm (length (row_at s rref)) c = Inr k"
        and cells: "cells = (row_at s rref)[k := v]"
        by (auto simp: py_set_def split: sum.splits)
      have gj: "grid_of s b ! j = row_of s rref" using jl rj by (simp add: grid_of_def)
      have n1: "py_norm (length (grid_of s b)) r = Inr j" using jn by (simp add: grid_of_def)
      have n2: "py_norm (length (grid_of s b ! j)) c = Inr k"
        using kn by (simp add: gj row_of_def)
      show ?thesis
        unfolding set_cell_norm [OF n1 n2] gj
        by (simp add: row_of_def cells map_update)
    qed
    ultimately show ?thesis by simp
  qed
qed

lemma set_cell_h_valid:
  assumes v: "valid s b" and nv: "\<And>a. v = Some a \<Longrightarrow> a < lim s"
    and sc: "set_cell_h s b r c v = (s', e)"
  shows "valid s' b"
proof (cases "py_get (rows_of s b) r")
  case (Inl x)
  with sc v show ?thesis by (simp add: set_cell_h_def)
next
  case (Inr rref)
  show ?thesis
  proof (cases "py_set (row_at s rref) c v")
    case (Inl x)
    with sc v Inr show ?thesis by (simp add: set_cell_h_def)
  next
    case (Inr cells)
    then obtain k where cells: "cells = (row_at s rref)[k := v]"
      by (auto simp: py_set_def split: sum.splits)
    from sc \<open>py_get (rows_of s b) r = Inr rref\<close> Inr
    have s': "s' = s\<lparr>row_at := (row_at s)(rref := cells)\<rparr>" by (simp add: set_cell_h_def)
    have rows': "rows_of s' b = rows_of s b" by (simp add: s' rows_of_def)
    have mem: "a < lim s" if "x \<in> set (rows_of s b)" "Some a \<in> set (row_at s' x)" for x a
    proof (cases "x = rref")
      case False
      with that v show ?thesis by (auto simp: s' valid_iff)
    next
      case True
      with that(2) have "Some a \<in> insert v (set (row_at s rref))"
        using set_update_subset_insert [of "row_at s rref" k v] by (auto simp: s' cells)
      with that(1) True v nv show ?thesis by (auto simp: valid_iff)
    qed
    show ?thesis
      unfolding valid_iff rows'
      using v mem by (auto simp: valid_iff s')
  qed
qed

lemma set_cell_h_board_at:
  "set_cell_h s b r c v = (s', e) \<Longrightarrow> board_at s' = board_at s \<and> rows_at s' = rows_at s"
  by (auto simp: set_cell_h_def split: sum.splits)

lemma board_board_of: "board (board_of s b) = grid_of s b"
  by (simp add: board_of_def)

lemma board_of_grid:
  "board_at s' = board_at s \<Longrightarrow> board_of s' b = (board_of s b)\<lparr>board := grid_of s' b\<rparr>"
  by (simp add: board_of_def)

lemma make_move_no_checks_h_refines:
  assumes d: "distinct (rows_of s b)" and v: "valid s b"
    and mm: "make_move_no_checks_h s b m = (s', e)"
  shows "make_move_no_checks (board_of s b) m =
           (case e of None \<Rightarrow> Inr (board_of s' b) | Some err \<Rightarrow> Inl err)"
proof -
  obtain r1 c1 r2 c2 where m_eq: "m = ((r1, c1), (r2, c2))" by (cases m) auto
  note bg = board_board_of
  note rd = cell_board_of [of s b r1 c1, unfolded bg]
  show ?thesis
  proof (cases "cell_h s b r1 c1")
    case (Inl x)
    with mm rd show ?thesis by (auto simp: make_move_no_checks_h_def make_move_no_checks_def m_eq bg)
  next
    case (Inr p)
    obtain s1 e1 where sc1: "set_cell_h s b r1 c1 None = (s1, e1)"
      by (cases "set_cell_h s b r1 c1 None")
    note r1 = set_cell_h_refines [OF d sc1]
    have rows1: "rows_of s1 b = rows_of s b" by (rule set_cell_h_rows(1) [OF sc1])
    have d1: "distinct (rows_of s1 b)" using d rows1 by simp
    have v1: "valid s1 b" by (rule set_cell_h_valid [OF v _ sc1]) simp
    have lim1: "lim s1 = lim s" by (rule set_cell_h_rows(2) [OF sc1])
    have ba1: "board_at s1 = board_at s" using set_cell_h_board_at [OF sc1] by simp
    show ?thesis
    proof (cases e1)
      case (Some err)
      with mm Inr sc1 rd r1(3) [of err] show ?thesis
        by (auto simp: make_move_no_checks_h_def make_move_no_checks_def m_eq bg)
    next
      case None
      from r1(2) [OF None] have g1: "set_cell (grid_of s b) r1 c1 None = Inr (grid_of s1 b)"
        by simp
      show ?thesis
      proof (cases p)
        case None
        with mm Inr sc1 \<open>e1 = None\<close> rd g1 show ?thesis
          by (auto simp: make_move_no_checks_h_def make_move_no_checks_def m_eq bg)
      next
        case (Some a)
        have pa: "piece_at s1 a = piece_at s a" using r1(1) by simp
        let ?pc = "piece_at s a"
        let ?v = "if kind ?pc = Pawn \<and> (r2 = 0 \<or> r2 = 7)
                  then Some (Piece (color ?pc) Queen) else Some ?pc"
        have val: "make_move_no_checks (board_of s b) m =
                     (case set_cell (grid_of s1 b) r2 c2 ?v of
                        Inl err \<Rightarrow> Inl err
                      | Inr g2 \<Rightarrow> Inr ((board_of s b)\<lparr>board := g2\<rparr>))"
          using Inr Some rd g1 by (simp add: make_move_no_checks_def m_eq bg)
        show ?thesis
        proof (cases "kind ?pc = Pawn \<and> (r2 = 0 \<or> r2 = 7)")
          case False
          with mm Inr sc1 \<open>e1 = None\<close> Some pa
          have sc2: "set_cell_h s1 b r2 c2 (Some a) = (s', e)"
            by (simp add: make_move_no_checks_h_def m_eq)
          note r2 = set_cell_h_refines [OF d1 sc2]
          have ba: "board_at s' = board_at s" using set_cell_h_board_at [OF sc2] ba1 by simp
          show ?thesis
          proof (cases e)
            case None
            from r2(2) [OF None] False pa show ?thesis
              by (auto simp: val None board_of_grid [OF ba])
          next
            case (Some err)
            from r2(3) [OF Some] False pa show ?thesis by (auto simp: val Some)
          qed
        next
          case True
          obtain s2 q where np: "new_piece s1 (Piece (color (piece_at s1 a)) Queen) = (s2, q)"
            by (cases "new_piece s1 (Piece (color (piece_at s1 a)) Queen)")
          with mm Inr sc1 \<open>e1 = None\<close> Some True pa
          have sc2: "set_cell_h s2 b r2 c2 (Some q) = (s', e)"
            by (simp add: make_move_no_checks_h_def m_eq)
          note n = new_piece_props [OF np]
          have own1: "\<And>x. x \<in> set (owned s1 b) \<Longrightarrow> x < lim s1"
            using v1 by (simp add: valid_def list_all_iff)
          note k = agree_board_of [OF n(1) own1]
          have g2: "grid_of s2 b = grid_of s1 b" using k(1) by (simp add: board_of_def)
          have rows2: "rows_of s2 b = rows_of s1 b" using np by (auto simp: new_piece_def rows_of_def)
          have d2: "distinct (rows_of s2 b)" using d1 rows2 by simp
          have ba2: "board_at s2 = board_at s1" using np by (auto simp: new_piece_def)
          note r2 = set_cell_h_refines [OF d2 sc2]
          have ba: "board_at s' = board_at s"
            using set_cell_h_board_at [OF sc2] ba1 ba2 by simp
          have q: "piece_at s2 q = Piece (color ?pc) Queen" using n(4) pa by simp
          show ?thesis
          proof (cases e)
            case None
            from r2(2) [OF None] True q g2 show ?thesis
              by (auto simp: val None board_of_grid [OF ba])
          next
            case (Some err)
            from r2(3) [OF Some] True q g2 show ?thesis by (auto simp: val Some)
          qed
        qed
      qed
    qed
  qed
qed

lemma clone_rows_distinct:
  assumes "clone_rows s rrefs = (s', rrefs')"
    and "\<And>r a. r \<in> set rrefs \<Longrightarrow> Some a \<in> set (row_at s r) \<Longrightarrow> a < lim s"
    and "\<And>r. r \<in> set rrefs \<Longrightarrow> r < lim s"
  shows "distinct rrefs'"
  using assms
proof (induction rrefs arbitrary: s s' rrefs')
  case Nil
  then show ?case by simp
next
  case (Cons r rs)
  from Cons.prems(1) obtain s1 r1 rs1 where c1: "clone_row s r = (s1, r1)"
    and cr: "clone_rows s1 rs = (s', rs1)" and out: "rrefs' = r1 # rs1"
    by (auto split: prod.splits)
  have lt: "\<And>a. Some a \<in> set (row_at s r) \<Longrightarrow> a < lim s"
    using Cons.prems(2) [of r] by simp
  note p1 = clone_row_props [OF c1 lt]
  have le1: "lim s \<le> lim s1" using p1(2,3) by simp
  have pre2: "a < lim s1" if "x \<in> set rs" "Some a \<in> set (row_at s1 x)" for x a
  proof -
    have xl: "x < lim s" using Cons.prems(3) [of x] that by simp
    have xa: "\<And>a. Some a \<in> set (row_at s x) \<Longrightarrow> a < lim s"
      using Cons.prems(2) [of x] that by simp
    have "row_at s1 x = row_at s x" by (rule agree_row(1) [OF p1(1) xl xa])
    with xa [of a] that le1 show ?thesis by simp
  qed
  have pre3: "x < lim s1" if "x \<in> set rs" for x
    using Cons.prems(3) [of x] le1 that by simp
  have "agree (lim s1) s1 s' \<and> lim s1 \<le> lim s'
         \<and> map (row_of s') rs1 = map (row_of s1) rs
         \<and> (\<forall>r' \<in> set rs1. lim s1 \<le> r' \<and> r' < lim s'
               \<and> (\<forall>a'. Some a' \<in> set (row_at s' r') \<longrightarrow> lim s1 \<le> a' \<and> a' < lim s'))"
    by (rule clone_rows_props [OF cr]) (erule (1) pre2, erule pre3)
  then have "\<forall>r' \<in> set rs1. lim s1 \<le> r'" by blast
  with p1(3) have "r1 \<notin> set rs1" by fastforce
  with Cons.IH [OF cr pre2 pre3] show ?case by (simp add: out)
qed

lemma clone_h_rows_distinct:
  assumes v: "valid s self" and cl: "clone_h s self = (s', b')"
  shows "distinct (rows_of s' b')"
proof -
  define s0 where "s0 = s\<lparr>lim := Suc (lim s)\<rparr>"
  obtain s1 rrefs where cr: "clone_rows s0 (rows_of s0 self) = (s1, rrefs)"
    by (cases "clone_rows s0 (rows_of s0 self)")
  obtain s2 gref where nr: "new_rows s1 rrefs = (s2, gref)"
    by (cases "new_rows s1 rrefs")
  have "clone_h s self =
          (s2\<lparr>board_at := (board_at s2)
                         (lim s := \<lparr>board_ref = gref,
                                to_move_of = to_move_of (board_at s2 self),
                                halfmove_clock_of = halfmove_clock_of (board_at s2 self),
                                fullmove_number_of = fullmove_number_of (board_at s2 self)\<rparr>)\<rparr>,
           lim s)"
    unfolding clone_h_def Let_def s0_def [symmetric] by (simp only: cr nr prod.case)
  with cl have s': "s' = s2\<lparr>board_at := (board_at s2)
                         (lim s := \<lparr>board_ref = gref,
                                to_move_of = to_move_of (board_at s2 self),
                                halfmove_clock_of = halfmove_clock_of (board_at s2 self),
                                fullmove_number_of = fullmove_number_of (board_at s2 self)\<rparr>)\<rparr>"
    and b': "b' = lim s"
    by auto
  note n = new_rows_props [OF nr]
  have rows': "rows_of s' b' = rrefs" using n(3,4) by (simp add: s' b' rows_of_def)
  from v have rows_lt: "\<And>r. r \<in> set (rows_of s self) \<Longrightarrow> r < lim s"
    and cells_lt: "\<And>r a. r \<in> set (rows_of s self) \<Longrightarrow> Some a \<in> set (row_at s r) \<Longrightarrow> a < lim s"
    by (auto simp: valid_iff)
  have pre2: "a < lim s0" if "r \<in> set (rows_of s0 self)" "Some a \<in> set (row_at s0 r)" for r a
    using cells_lt [of r a] that by (simp add: s0_def rows_of_def)
  have pre3: "r < lim s0" if "r \<in> set (rows_of s0 self)" for r
    using rows_lt [of r] that by (simp add: s0_def rows_of_def)
  have "distinct rrefs"
    by (rule clone_rows_distinct [OF cr]) (erule (1) pre2, erule pre3)
  with rows' show ?thesis by simp
qed

text \<open>
  The legality test on the store computes the function on board values: the value model
  of \<^verbatim>\<open>is_legal_move\<close>, where \<^verbatim>\<open>clone\<close> is a copy by value, is what the objects do.
\<close>

lemma is_legal_move_h_refines:
  assumes v: "valid s b"
  shows "snd (is_legal_move_h s b m col) = is_legal_move (board_of s b) m col"
proof -
  obtain r1 c1 r2 c2 where m_eq: "m = ((r1, c1), (r2, c2))" by (cases m) auto
  note rd = cell_board_of [of s b r1 c1]
  show ?thesis
  proof (cases "cell_h s b r1 c1")
    case (Inl x)
    with rd show ?thesis by (simp add: is_legal_move_h_def is_legal_move_def m_eq)
  next
    case (Inr p)
    show ?thesis
    proof (cases p)
      case None
      with Inr rd show ?thesis by (simp add: is_legal_move_h_def is_legal_move_def m_eq)
    next
      case (Some a)
      show ?thesis
      proof (cases "color (piece_at s a) = col")
        case False
        with Inr Some rd show ?thesis by (simp add: is_legal_move_h_def is_legal_move_def m_eq)
      next
        case True
        obtain s1 b2 where cl: "clone_h s b = (s1, b2)" by (cases "clone_h s b")
        obtain s2 e where mm: "make_move_no_checks_h s1 b2 m = (s2, e)"
          by (cases "make_move_no_checks_h s1 b2 m")
        note c = clone_h_props [OF v cl]
        have v1: "valid s1 b2" using c(3) by (fastforce simp: valid_def list_all_iff)
        have d1: "distinct (rows_of s1 b2)" by (rule clone_h_rows_distinct [OF v cl])
        from make_move_no_checks_h_refines [OF d1 v1 mm]
        have "make_move_no_checks (clone (board_of s b)) m =
                (case e of None \<Rightarrow> Inr (board_of s2 b2) | Some err \<Rightarrow> Inl err)"
          by (simp add: c(2) clone_ident)
        with Inr Some True rd cl mm show ?thesis
          by (simp add: is_legal_move_h_def is_legal_move_def m_eq split: option.splits)
      qed
    qed
  qed
qed

end
